theory Spec2Isabelle
  imports Main "HOL-Library.AList" "HOL-Library.Sublist"
begin

section \<open>Data model\<close>

text \<open>
  The types of the repository's type declarations. JavaScript strings are modelled as
  \<open>string\<close>, a list of 8-bit characters: the code looks at single characters only to
  compare them with \<open>'/'\<close> and \<open>'.'\<close>, and at whole strings only to compare them with
  ASCII literals and with each other. The numbers the code uses (group tags, the edge
  weight, the id counter) are small non-negative integers and are modelled as \<open>nat\<close>.
  The fields \<open>id\<close>, \<open>value\<close> and \<open>type\<close> are primed because the plain names are
  taken in Isabelle. A \<open>D3Node\<close> also has optional coordinates, which this code never
  sets, and the ends of a \<open>D3Link\<close> may be nodes as well as ids; this code stores ids.
\<close>

record RepoFileTree =
  path :: string
  type' :: string

record D3Node =
  id' :: string
  group :: nat
  label :: string

record D3Link =
  source :: string
  target :: string
  value' :: nat

record DataFlowGraph =
  nodes :: "D3Node list"
  links :: "D3Link list"

text \<open>
  The local variables of \<open>generateGraphFromTree\<close>: the two output arrays (inherited
  from \<open>DataFlowGraph\<close>), the \<open>pathMap\<close>, the counter, and the two variables
  \<open>currentPath\<close> and \<open>parentId\<close> that the callback of the outer loop declares anew for
  every entry. A JavaScript \<open>Map\<close> keeps its keys in insertion order, so \<open>pathMap\<close>
  is an association list: \<open>has\<close> and \<open>get\<close> are \<open>map_of\<close>, and \<open>set\<close> is
  \<open>AList.update\<close> (replace in place, or append a new key at the end).
\<close>

record state = DataFlowGraph +
  pathMap :: "(string \<times> string) list"
  nodeIdCounter :: nat
  currentPath :: string
  parentId :: string

datatype error = NonNullAssertion

section \<open>String primitives of the platform\<close>

text \<open>\<open>s.split(c)\<close> for a one-character separator: every separator ends a token, and
  the empty string splits into one empty token.\<close>

fun js_split :: "char \<Rightarrow> string \<Rightarrow> string list" where
  "js_split c [] = [[]]"
| "js_split c (x # xs) =
     (if x = c then [] # js_split c xs
      else (case js_split c xs of
              [] \<Rightarrow> [[x]]
            | t # ts \<Rightarrow> (x # t) # ts))"

text \<open>\<open>a.pop()\<close>: the last element, \<open>undefined\<close> on an empty array.\<close>

definition pop :: "'a list \<Rightarrow> 'a option" where
  "pop xs = (if xs = [] then None else Some (last xs))"

text \<open>The decimal digits that a template literal prints for a non-negative integer.\<close>

definition digit_char :: "nat \<Rightarrow> char" where
  "digit_char d = char_of (48 + d)"

fun string_of_nat :: "nat \<Rightarrow> string" where
  "string_of_nat n =
     (if n < 10 then [digit_char n]
      else string_of_nat (n div 10) @ [digit_char (n mod 10)])"

declare string_of_nat.simps [simp del]

section \<open>The Graph Assembler: generateGraphFromTree\<close>

text \<open>The group of a final segment: \<open>ext\<close> is the last token of the segment split at
  \<open>'.'\<close>, with \<open>ext || ''\<close> replacing an undefined or empty value by the empty string;
  the three tests run one after the other, each overwriting \<open>group\<close>.\<close>

definition extGroup :: "string \<Rightarrow> nat" where
  "extGroup part =
     (let ext = pop (js_split CHR ''.'' part);
          e = (case ext of None \<Rightarrow> [] | Some x \<Rightarrow> x);
          g1 = 1;
          g2 = (if e \<in> set [''ts'', ''tsx'', ''js'', ''jsx''] then 2 else g1);
          g3 = (if e \<in> set [''css'', ''scss'', ''html''] then 3 else g2);
          g4 = (if e \<in> set [''json'', ''yml'', ''config''] then 4 else g3)
      in g4)"

text \<open>The update \<open>currentPath = currentPath ? `${currentPath}/${part}` : part\<close>:
  the empty string is the only falsy string.\<close>

definition joinPath :: "string \<Rightarrow> string \<Rightarrow> string" where
  "joinPath cp part = (if cp \<noteq> [] then cp @ ''/'' @ part else part)"

text \<open>The body of the inner \<open>parts.forEach((part, index) => ...)\<close>; \<open>len\<close> is
  \<open>parts.length\<close>. The non-null assertion on \<open>pathMap.get(currentPath)\<close> is the one
  place where the code relies on a lookup succeeding; a failed lookup is the error
  value.\<close>

definition processPart :: "nat \<Rightarrow> string \<times> nat \<Rightarrow> state \<Rightarrow> error + state" where
  "processPart len pi s =
     (case pi of (part, index) \<Rightarrow>
        let isLast = (int index = int len - 1);
            cp = joinPath (currentPath s) part;
            s1 = s\<lparr>currentPath := cp\<rparr>;
            s2 = (if map_of (pathMap s1) cp = None then
                    let ident = ''node_'' @ string_of_nat (nodeIdCounter s1);
                        s' = s1\<lparr>nodeIdCounter := nodeIdCounter s1 + 1,
                                pathMap := AList.update cp ident (pathMap s1)\<rparr>;
                        grp = (if isLast then extGroup part else 5)
                    in s'\<lparr>nodes := nodes s' @ [\<lparr>id' = ident, group = grp, label = part\<rparr>],
                          links := links s' @
                            [\<lparr>source = parentId s', target = ident, value' = 1\<rparr>]\<rparr>
                  else s1)
        in (case map_of (pathMap s2) cp of
              None \<Rightarrow> Inl NonNullAssertion
            | Some pid \<Rightarrow> Inr (s2\<lparr>parentId := pid\<rparr>)))"

text \<open>\<open>xs.forEach(f)\<close> with a callback that may fail: the first failure ends the loop.\<close>

fun forEach :: "('a \<Rightarrow> 's \<Rightarrow> error + 's) \<Rightarrow> 'a list \<Rightarrow> 's \<Rightarrow> error + 's" where
  "forEach f [] s = Inr s"
| "forEach f (x # xs) s =
     (case f x s of Inl e \<Rightarrow> Inl e | Inr s' \<Rightarrow> forEach f xs s')"

text \<open>The body of the outer \<open>limitedTree.forEach(file => ...)\<close>.\<close>

definition processFile :: "RepoFileTree \<Rightarrow> state \<Rightarrow> error + state" where
  "processFile file s =
     (let parts = js_split CHR ''/'' (path file);
          s0 = s\<lparr>currentPath := [], parentId := ''root''\<rparr>
      in forEach (processPart (length parts)) (zip parts [0..<length parts]) s0)"

text \<open>The state before the outer loop: the root node alone, no edge, the empty prefix
  registered for \<open>root\<close>, and the counter at 1. The two variables of the loop body are
  given the values that the body gives them at the start of every entry.\<close>

definition rootNode :: D3Node where
  "rootNode = \<lparr>id' = ''root'', group = 0, label = ''root''\<rparr>"

definition initialState :: state where
  "initialState =
     \<lparr>nodes = [rootNode], links = [], pathMap = [([], ''root'')], nodeIdCounter = 1,
      currentPath = [], parentId = ''root''\<rparr>"

text \<open>The function up to its \<open>return\<close>, with all its local state: \<open>tree.slice(0, 100)\<close>
  is \<open>take 100\<close>. The function returns the two arrays.\<close>

definition assemble :: "RepoFileTree list \<Rightarrow> error + state" where
  "assemble tree = forEach processFile (take 100 tree) initialState"

definition generateGraphFromTree :: "RepoFileTree list \<Rightarrow> error + DataFlowGraph" where
  "generateGraphFromTree tree =
     (case assemble tree of
        Inl e \<Rightarrow> Inl e
      | Inr s \<Rightarrow> Inr \<lparr>nodes = nodes s, links = links s\<rparr>)"

section \<open>The input parser: parseRepoInput\<close>

text \<open>
  The result record of \<open>parseRepoInput\<close>, and the two properties that the function reads
  from a \<open>URL\<close> object.
\<close>

record RepoDetails =
  owner :: string
  repo :: string

record URL =
  hostname :: string
  pathname :: string

text \<open>\<open>s.trim()\<close> removes white space and line terminators from both ends; of these,
  the code units below 256 are TAB, LF, VT, FF, CR, SP and NBSP.\<close>

definition isWhiteSpace :: "char \<Rightarrow> bool" where
  "isWhiteSpace c \<longleftrightarrow> of_char c \<in> {9, 10, 11, 12, 13, 32, 160 :: nat}"

definition trim :: "string \<Rightarrow> string" where
  "trim s = rev (dropWhile isWhiteSpace (rev (dropWhile isWhiteSpace s)))"

text \<open>\<open>s.replace(/\/$/, '')\<close>: one \<open>'/'\<close> at the very end is removed.\<close>

definition replaceTrailingSlash :: "string \<Rightarrow> string" where
  "replaceTrailingSlash s = (if s \<noteq> [] \<and> last s = CHR ''/'' then butlast s else s)"

text \<open>\<open>a.filter(Boolean)\<close> on strings keeps the non-empty ones.\<close>

definition filterBoolean :: "string list \<Rightarrow> string list" where
  "filterBoolean xs = filter (\<lambda>x. x \<noteq> []) xs"

text \<open>
  The constructor \<open>new URL(...)\<close> belongs to the platform, not to the repository: it is
  the parameter \<open>newURL\<close>, which returns \<open>None\<close> where the constructor throws. The
  \<open>try\<close> block either returns from the function or falls through (its \<open>catch\<close> is
  empty) to the test of the bare token.
\<close>

definition parseRepoInput :: "(string \<Rightarrow> URL option) \<Rightarrow> string \<Rightarrow> RepoDetails option" where
  "parseRepoInput newURL input =
     (let cleanInput = replaceTrailingSlash (trim input);
          fromURL =
            (case newURL cleanInput of
               None \<Rightarrow> None
             | Some url \<Rightarrow>
                 if hostname url = ''github.com'' then
                   (let parts = filterBoolean (js_split CHR ''/'' (pathname url))
                    in if length parts \<ge> 2
                       then Some \<lparr>owner = parts ! 0, repo = parts ! 1\<rparr> else None)
                 else None)
      in case fromURL of
           Some r \<Rightarrow> Some r
         | None \<Rightarrow>
             (let parts = js_split CHR ''/'' cleanInput
              in if length parts = 2 \<and> parts ! 0 \<noteq> [] \<and> parts ! 1 \<noteq> []
                 then Some \<lparr>owner = parts ! 0, repo = parts ! 1\<rparr> else None))"

section \<open>Notions of the specification\<close>

subsection \<open>Identifiers and the edge relation\<close>

text \<open>The id of the node that is created when the counter is \<open>k\<close>; position 0 is the
  root, which is there from the start.\<close>

definition nid :: "nat \<Rightarrow> string" where
  "nid k = (if k = 0 then ''root'' else ''node_'' @ string_of_nat k)"

text \<open>The edges of a graph as a relation on ids, from source to target.\<close>

definition edges :: "DataFlowGraph \<Rightarrow> (string \<times> string) set" where
  "edges g = (\<lambda>l. (source l, target l)) ` set (links g)"

subsection \<open>Cumulative prefixes\<close>

text \<open>The values that \<open>currentPath\<close> takes while the segments \<open>parts\<close> are processed,
  starting from \<open>cp\<close>.\<close>

fun cumulative :: "string \<Rightarrow> string list \<Rightarrow> string list" where
  "cumulative cp [] = []"
| "cumulative cp (part # parts) = joinPath cp part # cumulative (joinPath cp part) parts"

text \<open>The cumulative path prefixes of one path, and of all entries in input order.\<close>

definition prefixes :: "string \<Rightarrow> string list" where
  "prefixes p = cumulative [] (js_split CHR ''/'' p)"

definition all_prefixes :: "RepoFileTree list \<Rightarrow> string list" where
  "all_prefixes tree = concat (map (\<lambda>file. prefixes (path file)) tree)"

text \<open>A prefix is appended to the list of known prefixes when it is not in it yet.\<close>

definition add_new :: "string list \<Rightarrow> string \<Rightarrow> string list" where
  "add_new ks k = (if k \<in> set ks then ks else ks @ [k])"

text \<open>The distinct elements of a list of prefixes in the order of their first occurrence,
  after the empty prefix that is registered for the root.\<close>

definition first_seen :: "string list \<Rightarrow> string list" where
  "first_seen ps = foldl add_new [[]] ps"

text \<open>The keys of \<open>pathMap\<close> at the end of a run, as the specification describes them:
  the empty prefix, then the distinct cumulative prefixes of the first 100 entries in the
  order in which they are first seen.\<close>

definition registered_prefixes :: "RepoFileTree list \<Rightarrow> string list" where
  "registered_prefixes tree = first_seen (all_prefixes (take 100 tree))"

text \<open>The last segment of a prefix, and the prefix without its last segment.\<close>

definition basename :: "string \<Rightarrow> string" where
  "basename p = last (js_split CHR ''/'' p)"

definition dirname :: "string \<Rightarrow> string" where
  "dirname p = take (length p - Suc (length (basename p))) p"


subsection \<open>Groups by first occurrence\<close>

text \<open>The group that the code computes at each segment of the inner loop, paired with the
  cumulative prefix of the segment; \<open>cp\<close> is \<open>currentPath\<close> before the first of them.\<close>

fun part_groups :: "nat \<Rightarrow> string \<Rightarrow> (string \<times> nat) list \<Rightarrow> (string \<times> nat) list" where
  "part_groups len cp [] = []"
| "part_groups len cp ((part, i) # pis) =
     (joinPath cp part, if int i = int len - 1 then extGroup part else 5) #
     part_groups len (joinPath cp part) pis"

text \<open>The same for one path, in the words of the specification: every cumulative prefix
  but the last is a folder (group 5), the last one is classified by \<open>extGroup\<close>; and for
  all entries in input order. Looking a prefix up in the list of all entries gives the
  group at its first occurrence.\<close>

definition file_groups :: "string \<Rightarrow> (string \<times> nat) list" where
  "file_groups p =
     (let parts = js_split CHR ''/'' p
      in zip (cumulative [] parts) (replicate (length parts - 1) 5 @ [extGroup (last parts)]))"

definition all_groups :: "RepoFileTree list \<Rightarrow> (string \<times> nat) list" where
  "all_groups tree = concat (map (\<lambda>file. file_groups (path file)) tree)"

subsection \<open>The cases of the input parser\<close>

text \<open>The first two path segments of a URL on host \<open>github.com\<close>, when there are two.\<close>

definition githubRepo :: "URL option \<Rightarrow> RepoDetails option" where
  "githubRepo u =
     (case u of
        None \<Rightarrow> None
      | Some url \<Rightarrow>
          (case filterBoolean (js_split CHR ''/'' (pathname url)) of
             ow # re # others \<Rightarrow>
               if hostname url = ''github.com'' then Some \<lparr>owner = ow, repo = re\<rparr> else None
           | _ \<Rightarrow> None))"

text \<open>A bare token: a non-empty owner, one \<open>'/'\<close>, and a non-empty repository name.\<close>

definition bareToken :: "string \<Rightarrow> RepoDetails \<Rightarrow> bool" where
  "bareToken s r \<longleftrightarrow>
     s = owner r @ ''/'' @ repo r \<and> owner r \<noteq> [] \<and> repo r \<noteq> [] \<and>
     CHR ''/'' \<notin> set (owner r) \<and> CHR ''/'' \<notin> set (repo r)"

section \<open>Invariants of the assembler's state\<close>

text \<open>
  Ids follow the counter: the node list carries \<open>root\<close>, \<open>node_1\<close>, ... up to the counter,
  the edge list has one edge into each node but the root, the values of \<open>pathMap\<close> are
  the same ids under distinct keys, \<open>parentId\<close> is one of them, and every edge leads
  from an earlier node to a later one.
\<close>

definition wf_state :: "state \<Rightarrow> bool" where
  "wf_state s \<longleftrightarrow>
     0 < nodeIdCounter s \<and>
     map id' (nodes s) = map nid [0..<nodeIdCounter s] \<and>
     map target (links s) = map nid [1..<nodeIdCounter s] \<and>
     map snd (pathMap s) = map nid [0..<nodeIdCounter s] \<and>
     distinct (map fst (pathMap s)) \<and>
     (\<exists>j<nodeIdCounter s. parentId s = nid j) \<and>
     (\<forall>l\<in>set (links s). \<exists>j k. j < k \<and> source l = nid j \<and> target l = nid k) \<and>
     take 1 (nodes s) = [rootNode]"

text \<open>
  Labels and parents follow the keys: a node is labelled with the last segment of its
  key, the source of its edge is the id registered for the key without that segment, and
  \<open>parentId\<close> is the id registered for \<open>currentPath\<close>.
\<close>

definition named_state :: "state \<Rightarrow> bool" where
  "named_state s \<longleftrightarrow>
     map label (nodes s) = ''root'' # map basename (tl (map fst (pathMap s))) \<and>
     map (\<lambda>k. map_of (pathMap s) (dirname k)) (tl (map fst (pathMap s))) =
       map (\<lambda>l. Some (source l)) (links s) \<and>
     map_of (pathMap s) (currentPath s) = Some (parentId s) \<and>
     take 1 (pathMap s) = [([], ''root'')]"

text \<open>
  Groups follow the first occurrence: \<open>occs\<close> lists the segments processed so far with
  the group computed at each, and the group of a node is the first one listed for its
  key. Every edge has value 1.
\<close>

definition tagged_state :: "state \<Rightarrow> (string \<times> nat) list \<Rightarrow> bool" where
  "tagged_state s occs \<longleftrightarrow>
     map (\<lambda>n. Some (group n)) (tl (nodes s)) = map (map_of occs) (tl (map fst (pathMap s))) \<and>
     set (map fst occs) \<subseteq> set (map fst (pathMap s)) \<and>
     nodes s \<noteq> [] \<and> pathMap s \<noteq> [] \<and>
     map value' (links s) = replicate (length (links s)) 1"

section \<open>Facts about the string primitives\<close>

subsection \<open>Splitting\<close>

lemma js_split_not_Nil: "js_split c s \<noteq> []"
  by (induction s) (auto split: list.splits)

lemma js_split_no_sep: "c \<notin> set xs \<Longrightarrow> js_split c xs = [xs]"
  by (induction xs) auto

lemma js_split_append_sep: "js_split c (xs @ c # ys) = js_split c xs @ js_split c ys"
proof (induction xs)
  case Nil
  show ?case by simp
next
  case (Cons x xs)
  obtain t ts where "js_split c xs = t # ts"
    using js_split_not_Nil[of c xs] by (cases "js_split c xs") auto
  with Cons show ?case by simp
qed

lemma js_split_tokens: "t \<in> set (js_split c xs) \<Longrightarrow> c \<notin> set t"
proof (induction xs arbitrary: t)
  case Nil
  then show ?case by simp
next
  case (Cons x xs)
  obtain u us where u: "js_split c xs = u # us"
    using js_split_not_Nil[of c xs] by (cases "js_split c xs") auto
  with Cons.IH have "c \<notin> set u" and "\<And>t. t \<in> set us \<Longrightarrow> c \<notin> set t" by simp_all
  with Cons.prems u show ?case by (auto split: if_splits)
qed


lemma js_split_single: "js_split c s = [a] \<Longrightarrow> s = a"
proof (induction s arbitrary: a)
  case Nil
  then show ?case by simp
next
  case (Cons x xs)
  obtain t ts where t: "js_split c xs = t # ts"
    using js_split_not_Nil[of c xs] by (cases "js_split c xs") auto
  with Cons.prems have "x \<noteq> c" and "a = x # t" and "ts = []"
    by (auto split: if_splits)
  with Cons.IH[of t] t show ?case by simp
qed

lemma js_split_pair: "js_split c s = [a, b] \<Longrightarrow> s = a @ c # b"
proof (induction s arbitrary: a)
  case Nil
  then show ?case by simp
next
  case (Cons x xs)
  obtain t ts where t: "js_split c xs = t # ts"
    using js_split_not_Nil[of c xs] by (cases "js_split c xs") auto
  show ?case
  proof (cases "x = c")
    case True
    with Cons.prems have "a = []" and "js_split c xs = [b]" by simp_all
    with True js_split_single[of c xs b] show ?thesis by simp
  next
    case False
    with Cons.prems t have "a = x # t" and "js_split c xs = [t, b]" by simp_all
    with Cons.IH[of t] show ?thesis by simp
  qed
qed

lemma js_split_pair_iff:
  "js_split c s = [a, b] \<longleftrightarrow> s = a @ c # b \<and> c \<notin> set a \<and> c \<notin> set b"
proof
  assume h: "js_split c s = [a, b]"
  then have "s = a @ c # b" by (rule js_split_pair)
  moreover have "c \<notin> set a" "c \<notin> set b"
    using js_split_tokens[of a c s] js_split_tokens[of b c s] h by simp_all
  ultimately show "s = a @ c # b \<and> c \<notin> set a \<and> c \<notin> set b" by simp
next
  assume "s = a @ c # b \<and> c \<notin> set a \<and> c \<notin> set b"
  then show "js_split c s = [a, b]"
    by (simp add: js_split_append_sep js_split_no_sep)
qed

lemma basename_joinPath:
  assumes "CHR ''/'' \<notin> set part"
  shows "basename (joinPath cp part) = part"
proof (cases "cp = []")
  case True
  with assms show ?thesis by (simp add: basename_def joinPath_def js_split_no_sep)
next
  case False
  have "js_split CHR ''/'' (cp @ CHR ''/'' # part) = js_split CHR ''/'' cp @ [part]"
    using assms by (simp add: js_split_append_sep js_split_no_sep)
  with False show ?thesis by (simp add: basename_def joinPath_def)
qed

lemma dirname_joinPath:
  assumes "CHR ''/'' \<notin> set part"
  shows "dirname (joinPath cp part) = cp"
proof (cases "cp = []")
  case True
  then have "joinPath cp part = part" by (simp add: joinPath_def)
  with True basename_joinPath[OF assms, of cp] show ?thesis by (simp add: dirname_def)
next
  case False
  then have j: "joinPath cp part = cp @ CHR ''/'' # part" by (simp add: joinPath_def)
  from basename_joinPath[OF assms, of cp] show ?thesis
    unfolding dirname_def by (simp add: j)
qed

subsection \<open>Decimal numerals and node ids\<close>

lemma digit_char_inj: "d < 10 \<Longrightarrow> e < 10 \<Longrightarrow> digit_char d = digit_char e \<Longrightarrow> d = e"
proof -
  assume d: "d < 10" and e: "e < 10" and eq: "digit_char d = digit_char e"
  have "(of_char (char_of (48 + d)) :: nat) = (48 + d) mod 256" by (rule of_char_of)
  then have 1: "(of_char (digit_char d) :: nat) = 48 + d" using d by (simp only: digit_char_def) simp
  have "(of_char (char_of (48 + e)) :: nat) = (48 + e) mod 256" by (rule of_char_of)
  then have 2: "(of_char (digit_char e) :: nat) = 48 + e" using e by (simp only: digit_char_def) simp
  from eq have "(of_char (digit_char d) :: nat) = of_char (digit_char e)" by (rule arg_cong)
  with 1 2 show "d = e" by linarith
qed

lemma string_of_nat_not_Nil: "string_of_nat n \<noteq> []"
  by (subst string_of_nat.simps) simp

lemma string_of_nat_inj: "string_of_nat n = string_of_nat m \<Longrightarrow> n = m"
proof (induction n arbitrary: m rule: string_of_nat.induct)
  case (1 n)
  show ?case
  proof (cases "n < 10")
    case True
    show ?thesis
    proof (cases "m < 10")
      case m: True
      from "1.prems" True m have "digit_char n = digit_char m"
        by (simp add: string_of_nat.simps)
      with True m show ?thesis by (intro digit_char_inj)
    next
      case m: False
      from "1.prems" True m have "[digit_char n] = string_of_nat (m div 10) @ [digit_char (m mod 10)]"
        by (simp add: string_of_nat.simps[of n] string_of_nat.simps[of m])
      then have "string_of_nat (m div 10) = []" by simp
      then show ?thesis by (simp add: string_of_nat_not_Nil)
    qed
  next
    case False
    show ?thesis
    proof (cases "m < 10")
      case m: True
      from "1.prems" False m have "string_of_nat (n div 10) @ [digit_char (n mod 10)] = [digit_char m]"
        by (simp add: string_of_nat.simps[of n] string_of_nat.simps[of m])
      then have "string_of_nat (n div 10) = []" by simp
      then show ?thesis by (simp add: string_of_nat_not_Nil)
    next
      case m: False
      from "1.prems" False m
      have "string_of_nat (n div 10) @ [digit_char (n mod 10)] =
            string_of_nat (m div 10) @ [digit_char (m mod 10)]"
        by (simp add: string_of_nat.simps[of n] string_of_nat.simps[of m])
      then have a: "string_of_nat (n div 10) = string_of_nat (m div 10)"
        and b: "digit_char (n mod 10) = digit_char (m mod 10)" by simp_all
      from "1.IH"[OF False a] have "n div 10 = m div 10" .
      moreover from b have "n mod 10 = m mod 10" by (intro digit_char_inj) simp_all
      ultimately show ?thesis by (metis div_mult_mod_eq)
    qed
  qed
qed

lemma nid_inj: "nid j = nid k \<Longrightarrow> j = k"
  by (auto simp: nid_def dest: string_of_nat_inj split: if_splits)

lemma nid_eq_iff [simp]: "nid j = nid k \<longleftrightarrow> j = k"
  using nid_inj by blast

lemma nid_0 [simp]: "nid 0 = ''root''"
  by (simp add: nid_def)

lemma nid_pos: "0 < k \<Longrightarrow> ''node_'' @ string_of_nat k = nid k"
  by (simp add: nid_def)

lemma inj_nid: "inj nid"
  by (rule injI) simp

lemma nid_root_iff [simp]: "nid k = ''root'' \<longleftrightarrow> k = 0" "''root'' = nid k \<longleftrightarrow> k = 0"
  using nid_eq_iff[of k 0] nid_eq_iff[of 0 k] by (auto simp only: nid_0)

subsection \<open>Trimming\<close>

lemma trim_append_slash:
  assumes "input = [] \<or> \<not> isWhiteSpace (last input)"
  shows "trim (input @ ''/'') = trim input @ ''/''"
proof -
  have ns: "\<not> isWhiteSpace CHR ''/''" by (simp add: isWhiteSpace_def)
  show ?thesis
  proof (cases "dropWhile isWhiteSpace input = []")
    case True
    then have "\<forall>c\<in>set input. isWhiteSpace c" by (simp add: dropWhile_eq_Nil_conv)
    with assms have "input = []" by (metis last_in_set)
    then show ?thesis using ns by (simp add: trim_def)
  next
    case False
    define d where "d = dropWhile isWhiteSpace input"
    from False have d: "d \<noteq> []" by (simp add: d_def)
    from False have ne: "input \<noteq> []" by auto
    have "input = takeWhile isWhiteSpace input @ d" by (simp add: d_def)
    with d have "last d = last input" by (metis last_appendR)
    with assms ne have "\<not> isWhiteSpace (last d)" by simp
    with d have r: "dropWhile isWhiteSpace (rev d) = rev d"
      by (cases d rule: rev_cases) simp_all
    from False have "dropWhile isWhiteSpace (input @ ''/'') = d @ ''/''"
      unfolding d_def by (simp add: dropWhile_append1 dropWhile_eq_Nil_conv) (metis dropWhile_append1)
    then show ?thesis using ns r by (simp add: trim_def d_def[symmetric])
  qed
qed

lemma trim_last:
  assumes "input \<noteq> []" and "\<not> isWhiteSpace (last input)"
  shows "trim input \<noteq> [] \<and> last (trim input) = last input"
proof -
  define d where "d = dropWhile isWhiteSpace input"
  from assms have "\<not> (\<forall>c\<in>set input. isWhiteSpace c)" by (metis last_in_set)
  then have d: "d \<noteq> []" by (simp add: d_def)
  have "input = takeWhile isWhiteSpace input @ d" by (simp add: d_def)
  with d have l: "last d = last input" by (metis last_appendR)
  with assms have "\<not> isWhiteSpace (last d)" by simp
  with d have "dropWhile isWhiteSpace (rev d) = rev d"
    by (cases d rule: rev_cases) simp_all
  then have "trim input = d" by (simp add: trim_def d_def[symmetric])
  with d l show ?thesis by simp
qed

lemma clean_append_slash:
  assumes "input = [] \<or> (\<not> isWhiteSpace (last input) \<and> last input \<noteq> CHR ''/'')"
  shows "replaceTrailingSlash (trim (input @ ''/'')) = replaceTrailingSlash (trim input)"
proof (cases "input = []")
  case True
  then show ?thesis by (simp add: trim_def replaceTrailingSlash_def isWhiteSpace_def)
next
  case False
  with assms have a: "\<not> isWhiteSpace (last input)" "last input \<noteq> CHR ''/''" by simp_all
  from a(1) have "trim (input @ ''/'') = trim input @ ''/''"
    by (simp add: trim_append_slash)
  moreover from trim_last[OF False a(1)] a(2)
  have "replaceTrailingSlash (trim input) = trim input"
    by (simp add: replaceTrailingSlash_def)
  ultimately show ?thesis by (simp add: replaceTrailingSlash_def)
qed

subsection \<open>Association lists and lists of prefixes\<close>

lemma update_fresh: "k \<notin> fst ` set al \<Longrightarrow> AList.update k v al = al @ [(k, v)]"
  by (induction al) auto

lemma map_of_in_snd: "map_of al k = Some v \<Longrightarrow> v \<in> set (map snd al)"
  by (auto dest: map_of_SomeD intro: rev_image_eqI)

lemma map_of_snoc_known:
  "map_of al x = Some y \<Longrightarrow> map_of (al @ [(k, v)]) x = Some y"
  by (simp add: map_add_Some_iff)

lemma map_of_snoc_fresh:
  "map_of al k = None \<Longrightarrow> map_of (al @ [(k, v)]) k = Some v"
  by (simp add: map_add_Some_iff)

lemma map_of_append_known:
  "map_of al x = Some y \<Longrightarrow> map_of (al @ bl) x = Some y"
  by (simp add: map_add_Some_iff)





lemma part_groups_zip:
  "ps \<noteq> [] \<Longrightarrow>
   part_groups (k + length ps) cp (zip ps [k..<k + length ps]) =
     zip (cumulative cp ps) (replicate (length ps - 1) 5 @ [extGroup (last ps)])"
proof (induction ps arbitrary: k cp)
  case Nil
  then show ?case by simp
next
  case (Cons p ps)
  have u: "[k..<k + length (p # ps)] = k # [Suc k..<Suc k + length ps]"
    by (subst upt_rec) simp
  show ?case
  proof (cases "ps = []")
    case True
    then show ?thesis by (simp add: u)
  next
    case False
    then have l: "0 < length ps" by simp
    from Cons.IH[OF False, of "Suc k" "joinPath cp p"]
    have "part_groups (k + length (p # ps)) (joinPath cp p) (zip ps [Suc k..<Suc k + length ps]) =
      zip (cumulative (joinPath cp p) ps) (replicate (length ps - 1) 5 @ [extGroup (last ps)])"
      by simp
    moreover from l have "replicate (length (p # ps) - 1) (5::nat) = 5 # replicate (length ps - 1) 5"
      by (cases "length ps") simp_all
    moreover from l have "int k \<noteq> int (k + length (p # ps)) - 1" by simp
    moreover from False have "last (p # ps) = last ps" by simp
    ultimately show ?thesis
      by (simp only: u zip_Cons_Cons part_groups.simps cumulative.simps append_Cons if_False)
  qed
qed

lemma part_groups_file:
  "part_groups (length (js_split CHR ''/'' p)) []
     (zip (js_split CHR ''/'' p) [0..<length (js_split CHR ''/'' p)]) = file_groups p"
  using part_groups_zip[OF js_split_not_Nil, of 0 "CHR ''/''" p "[]"]
  by (simp add: file_groups_def Let_def)

section \<open>The loops of the assembler\<close>

subsection \<open>Rules for forEach\<close>

lemma forEach_total:
  assumes "\<And>x s. \<exists>s'. f x s = Inr s'"
  shows "\<exists>s'. forEach f xs s = Inr s'"
proof (induction xs arbitrary: s)
  case Nil
  show ?case by simp
next
  case (Cons x xs)
  from assms obtain s1 where "f x s = Inr s1" by blast
  with Cons.IH[of s1] show ?case by simp
qed

lemma forEach_invariant:
  assumes "P s" and "forEach f xs s = Inr s'"
    and step: "\<And>x s s'. P s \<Longrightarrow> f x s = Inr s' \<Longrightarrow> P s'"
  shows "P s'"
  using assms(1,2)
proof (induction xs arbitrary: s)
  case Nil
  then show ?case by simp
next
  case (Cons x xs)
  then show ?case
    by (auto split: sum.splits dest: step)
qed

lemma forEach_invariant_set:
  assumes "P s" and "forEach f xs s = Inr s'"
    and step: "\<And>x s s'. x \<in> set xs \<Longrightarrow> P s \<Longrightarrow> f x s = Inr s' \<Longrightarrow> P s'"
  shows "P s'"
  using assms(1,2) step
proof (induction xs arbitrary: s)
  case Nil
  then show ?case by simp
next
  case (Cons x xs)
  from Cons.prems(2) obtain s1 where s1: "f x s = Inr s1" "forEach f xs s1 = Inr s'"
    by (auto split: sum.splits)
  have "P s1" by (rule Cons.prems(3)[of x s s1]) (simp_all add: Cons.prems(1) s1(1))
  moreover have "P t'" if "y \<in> set xs" "P t" "f y t = Inr t'" for y t t'
    by (rule Cons.prems(3)[of y t t']) (simp_all add: that)
  ultimately show ?case using s1(2) by (intro Cons.IH[of s1]) auto
qed

lemma forEach_append:
  "forEach f (xs @ ys) s =
     (case forEach f xs s of Inl e \<Rightarrow> Inl e | Inr s' \<Rightarrow> forEach f ys s')"
  by (induction xs arbitrary: s) (auto split: sum.splits)

lemma forEach_extends:
  assumes run: "forEach f xs s = Inr s'"
    and step: "\<And>x s s'. f x s = Inr s' \<Longrightarrow>
      prefix (nodes s) (nodes s') \<and> prefix (links s) (links s')"
  shows "prefix (nodes s) (nodes s') \<and> prefix (links s) (links s')"
  using run
proof (induction xs arbitrary: s)
  case Nil
  then show ?case by simp
next
  case (Cons x xs)
  then obtain s1 where s1: "f x s = Inr s1" "forEach f xs s1 = Inr s'"
    by (auto split: sum.splits)
  from step[OF s1(1)] Cons.IH[OF s1(2)] show ?case
    by (meson prefix_order.trans)
qed

subsection \<open>One segment, one entry, all entries\<close>

lemma processPart_fresh:
  assumes "map_of (pathMap s) (joinPath (currentPath s) part) = None"
  shows "processPart len (part, i) s =
    Inr (s\<lparr>nodes := nodes s @
               [\<lparr>id' = ''node_'' @ string_of_nat (nodeIdCounter s),
                 group = (if int i = int len - 1 then extGroup part else 5), label = part\<rparr>],
            links := links s @
               [\<lparr>source = parentId s, target = ''node_'' @ string_of_nat (nodeIdCounter s),
                 value' = 1\<rparr>],
            pathMap := pathMap s @
               [(joinPath (currentPath s) part, ''node_'' @ string_of_nat (nodeIdCounter s))],
            nodeIdCounter := Suc (nodeIdCounter s),
            currentPath := joinPath (currentPath s) part,
            parentId := ''node_'' @ string_of_nat (nodeIdCounter s)\<rparr>)"
proof -
  from assms have "joinPath (currentPath s) part \<notin> fst ` set (pathMap s)"
    by (simp add: map_of_eq_None_iff)
  then have u: "AList.update (joinPath (currentPath s) part) v (pathMap s) =
      pathMap s @ [(joinPath (currentPath s) part, v)]" for v
    by (rule update_fresh)
  show ?thesis
    using assms by (simp add: processPart_def Let_def update_conv' u[symmetric])
qed

lemma processPart_known:
  assumes "map_of (pathMap s) (joinPath (currentPath s) part) = Some v"
  shows "processPart len (part, i) s =
    Inr (s\<lparr>currentPath := joinPath (currentPath s) part, parentId := v\<rparr>)"
  using assms by (simp add: processPart_def Let_def)

lemma processPart_cases:
  obtains (fresh) "map_of (pathMap s) (joinPath (currentPath s) part) = None"
    | (known) v where "map_of (pathMap s) (joinPath (currentPath s) part) = Some v"
  by (cases "map_of (pathMap s) (joinPath (currentPath s) part)") auto

lemma processPart_total: "\<exists>s'. processPart len pi s = Inr s'"
proof -
  obtain part i where pi: "pi = (part, i)" by (cases pi)
  show ?thesis
    unfolding pi
    by (cases s part rule: processPart_cases) (simp_all add: processPart_fresh processPart_known)
qed

lemma processFile_total: "\<exists>s'. processFile file s = Inr s'"
  unfolding processFile_def Let_def by (rule forEach_total) (rule processPart_total)

lemma assemble_total: "\<exists>s. assemble tree = Inr s"
  unfolding assemble_def by (rule forEach_total) (rule processFile_total)

lemma generateGraphFromTree_assemble:
  "assemble tree = Inr s \<Longrightarrow>
   generateGraphFromTree tree = Inr \<lparr>nodes = nodes s, links = links s\<rparr>"
  by (simp add: generateGraphFromTree_def)

lemma processPart_extends:
  assumes "processPart len pi s = Inr s'"
  shows "prefix (nodes s) (nodes s') \<and> prefix (links s) (links s')"
proof -
  obtain part i where pi: "pi = (part, i)" by (cases pi)
  show ?thesis
    using assms unfolding pi
    by (cases s part rule: processPart_cases) (auto simp: processPart_fresh processPart_known)
qed

lemma processFile_extends:
  assumes "processFile file s = Inr s'"
  shows "prefix (nodes s) (nodes s') \<and> prefix (links s) (links s')"
proof -
  from assms
  have "forEach (processPart (length (js_split CHR ''/'' (path file))))
          (zip (js_split CHR ''/'' (path file)) [0..<length (js_split CHR ''/'' (path file))])
          (s\<lparr>currentPath := [], parentId := ''root''\<rparr>) = Inr s'"
    by (simp add: processFile_def Let_def)
  from forEach_extends[OF this processPart_extends] show ?thesis by simp
qed

lemma processFile_path_only: "path f = path f' \<Longrightarrow> processFile f = processFile f'"
  by (rule ext) (simp add: processFile_def)

lemma forEach_path_only:
  "map path fs = map path fs' \<Longrightarrow> forEach processFile fs s = forEach processFile fs' s"
proof (induction fs arbitrary: fs' s)
  case Nil
  then show ?case by simp
next
  case (Cons f fs)
  then obtain f' fs'' where f': "fs' = f' # fs''" "path f = path f'" "map path fs = map path fs''"
    by (cases fs') auto
  from f'(2) have "processFile f = processFile f'" by (rule processFile_path_only)
  with Cons.IH[OF f'(3)] show ?case by (simp add: f'(1) split: sum.splits)
qed

subsection \<open>The keys of the path map\<close>

lemma processPart_keys:
  assumes "processPart len (part, i) s = Inr s'"
  shows "map fst (pathMap s') = add_new (map fst (pathMap s)) (joinPath (currentPath s) part)"
    and "currentPath s' = joinPath (currentPath s) part"
proof -
  have "map fst (pathMap s') = add_new (map fst (pathMap s)) (joinPath (currentPath s) part) \<and>
    currentPath s' = joinPath (currentPath s) part"
  proof (cases s part rule: processPart_cases)
    case fresh
    then have "joinPath (currentPath s) part \<notin> set (map fst (pathMap s))"
      by (simp add: map_of_eq_None_iff)
    with assms fresh show ?thesis
      by (auto simp: processPart_fresh add_new_def)
  next
    case (known v)
    then have "joinPath (currentPath s) part \<in> set (map fst (pathMap s))"
      by (metis map_of_eq_None_iff option.distinct(1) set_map)
    with assms known show ?thesis
      by (auto simp: processPart_known add_new_def)
  qed
  then show "map fst (pathMap s') = add_new (map fst (pathMap s)) (joinPath (currentPath s) part)"
    and "currentPath s' = joinPath (currentPath s) part" by simp_all
qed

lemma forEach_parts_keys:
  "forEach (processPart len) pis s = Inr s' \<Longrightarrow>
   map fst (pathMap s') =
     foldl add_new (map fst (pathMap s)) (cumulative (currentPath s) (map fst pis))"
proof (induction pis arbitrary: s)
  case Nil
  then show ?case by simp
next
  case (Cons pi pis)
  obtain part i where pi: "pi = (part, i)" by (cases pi)
  from Cons.prems obtain s1 where s1: "processPart len (part, i) s = Inr s1"
    "forEach (processPart len) pis s1 = Inr s'"
    by (auto simp: pi split: sum.splits)
  from Cons.IH[OF s1(2)] processPart_keys[OF s1(1)] show ?case
    by (simp add: pi)
qed

lemma processFile_keys:
  assumes "processFile file s = Inr s'"
  shows "map fst (pathMap s') = foldl add_new (map fst (pathMap s)) (prefixes (path file))"
proof -
  from assms
  have "forEach (processPart (length (js_split CHR ''/'' (path file))))
          (zip (js_split CHR ''/'' (path file)) [0..<length (js_split CHR ''/'' (path file))])
          (s\<lparr>currentPath := [], parentId := ''root''\<rparr>) = Inr s'"
    by (simp add: processFile_def Let_def)
  from forEach_parts_keys[OF this] show ?thesis
    by (simp add: prefixes_def)
qed

lemma forEach_files_keys:
  "forEach processFile files s = Inr s' \<Longrightarrow>
   map fst (pathMap s') = foldl add_new (map fst (pathMap s)) (all_prefixes files)"
proof (induction files arbitrary: s)
  case Nil
  then show ?case by (simp add: all_prefixes_def)
next
  case (Cons entry files)
  from Cons.prems obtain s1 where s1: "processFile entry s = Inr s1"
    "forEach processFile files s1 = Inr s'"
    by (auto split: sum.splits)
  from Cons.IH[OF s1(2)] processFile_keys[OF s1(1)] show ?case
    by (simp add: all_prefixes_def)
qed

lemma assemble_keys:
  "assemble tree = Inr s \<Longrightarrow> map fst (pathMap s) = first_seen (all_prefixes (take 100 tree))"
  unfolding assemble_def first_seen_def
  by (drule forEach_files_keys) (simp add: initialState_def)

section \<open>The invariants hold\<close>

subsection \<open>Ids follow the counter\<close>

lemma wf_initialState: "wf_state initialState"
  by (simp add: wf_state_def initialState_def rootNode_def)

lemma wf_processPart:
  assumes wf: "wf_state s" and step: "processPart len pi s = Inr s'"
  shows "wf_state s'"
proof -
  obtain part i where pi: "pi = (part, i)" by (cases pi)
  let ?n = "nodeIdCounter s"
  from wf have pos: "0 < ?n" by (simp add: wf_state_def)
  then have upt0: "[0..<Suc ?n] = [0..<?n] @ [?n]" and upt1: "[Suc 0..<Suc ?n] = [Suc 0..<?n] @ [?n]"
    by simp_all
  show ?thesis
  proof (cases s part rule: processPart_cases)
    case fresh
    from step have s': "s' = s\<lparr>nodes := nodes s @
               [\<lparr>id' = nid ?n,
                 group = (if int i = int len - 1 then extGroup part else 5), label = part\<rparr>],
            links := links s @ [\<lparr>source = parentId s, target = nid ?n, value' = 1\<rparr>],
            pathMap := pathMap s @ [(joinPath (currentPath s) part, nid ?n)],
            nodeIdCounter := Suc ?n,
            currentPath := joinPath (currentPath s) part,
            parentId := nid ?n\<rparr>"
      unfolding pi processPart_fresh[OF fresh] nid_pos[OF pos] by simp
    from fresh have nk: "joinPath (currentPath s) part \<notin> set (map fst (pathMap s))"
      by (simp add: map_of_eq_None_iff)
    from wf obtain j where j: "j < ?n" "parentId s = nid j" by (auto simp: wf_state_def)
    have "take 1 (nodes s @ [x]) = take 1 (nodes s)" for x
      using wf by (cases "nodes s") (simp_all add: wf_state_def)
    moreover have "\<exists>j<Suc ?n. nid ?n = nid j" by blast
    moreover have "\<exists>j k. j < k \<and> parentId s = nid j \<and> nid ?n = nid k" using j by blast
    ultimately show ?thesis
      using wf nk unfolding s' wf_state_def
      by (simp add: upt0 upt1 del: upt_Suc)
  next
    case (known v)
    from step have s': "s' = s\<lparr>currentPath := joinPath (currentPath s) part, parentId := v\<rparr>"
      unfolding pi processPart_known[OF known] by simp
    from known have "v \<in> set (map snd (pathMap s))" by (rule map_of_in_snd)
    with wf have "\<exists>j<?n. v = nid j" by (auto simp: wf_state_def)
    then show ?thesis using wf unfolding s' wf_state_def by simp
  qed
qed

lemma wf_processFile:
  assumes wf: "wf_state s" and step: "processFile file s = Inr s'"
  shows "wf_state s'"
proof -
  have "wf_state (s\<lparr>currentPath := [], parentId := ''root''\<rparr>)"
  proof -
    have "\<exists>j<nodeIdCounter s. ''root'' = nid j" using wf by (auto simp: wf_state_def intro: exI[of _ 0])
    then show ?thesis using wf by (simp add: wf_state_def)
  qed
  moreover from step
  have "forEach (processPart (length (js_split CHR ''/'' (path file))))
          (zip (js_split CHR ''/'' (path file)) [0..<length (js_split CHR ''/'' (path file))])
          (s\<lparr>currentPath := [], parentId := ''root''\<rparr>) = Inr s'"
    by (simp add: processFile_def Let_def)
  ultimately show ?thesis
    by (rule forEach_invariant) (rule wf_processPart)
qed

lemma wf_assemble: "assemble tree = Inr s \<Longrightarrow> wf_state s"
  unfolding assemble_def
  by (rule forEach_invariant[where P = wf_state and s = initialState])
     (rule wf_initialState, assumption, rule wf_processFile)

lemma generateGraphFromTree_Inr:
  assumes "generateGraphFromTree tree = Inr g"
  obtains s where "assemble tree = Inr s" and "wf_state s"
    and "nodes g = nodes s" and "links g = links s"
proof -
  from assms obtain s where s: "assemble tree = Inr s" and g: "g = \<lparr>nodes = nodes s, links = links s\<rparr>"
    by (auto simp: generateGraphFromTree_def split: sum.splits)
  from s have "wf_state s" by (rule wf_assemble)
  with s g that show thesis by simp
qed

lemma wf_lengths:
  assumes "wf_state s"
  shows "length (nodes s) = nodeIdCounter s" and "length (pathMap s) = nodeIdCounter s"
    and "Suc (length (links s)) = nodeIdCounter s"
proof -
  from assms have "length (map id' (nodes s)) = length (map nid [0..<nodeIdCounter s])"
    and "length (map snd (pathMap s)) = length (map nid [0..<nodeIdCounter s])"
    and "length (map target (links s)) = length (map nid [1..<nodeIdCounter s])"
    and "0 < nodeIdCounter s"
    by (simp_all only: wf_state_def)
  then show "length (nodes s) = nodeIdCounter s" and "length (pathMap s) = nodeIdCounter s"
    and "Suc (length (links s)) = nodeIdCounter s"
    by simp_all
qed

lemma wf_nodes_root:
  assumes wf: "wf_state s"
  obtains rest where "nodes s = rootNode # rest"
    and "map id' rest = map nid [Suc 0..<nodeIdCounter s]"
proof -
  from wf have t: "take 1 (nodes s) = [rootNode]" by (simp add: wf_state_def)
  then obtain rest where r: "nodes s = rootNode # rest" by (cases "nodes s") simp_all
  from wf have "map id' (nodes s) = map nid [0..<nodeIdCounter s]" and "0 < nodeIdCounter s"
    by (simp_all add: wf_state_def)
  then have "map id' (nodes s) = nid 0 # map nid [Suc 0..<nodeIdCounter s]"
    by (simp add: upt_conv_Cons)
  with r have "map id' rest = map nid [Suc 0..<nodeIdCounter s]" by simp
  with r that show thesis by blast
qed

lemma wf_link:
  assumes wf: "wf_state s" and l: "l \<in> set (links s)"
  obtains j k where "j < k" and "k < nodeIdCounter s" and "source l = nid j" and "target l = nid k"
proof -
  from wf l obtain j k where jk: "j < k" "source l = nid j" "target l = nid k"
    unfolding wf_state_def by blast
  from l have "target l \<in> set (map target (links s))" by simp
  also from wf have "map target (links s) = map nid [1..<nodeIdCounter s]" by (simp add: wf_state_def)
  finally have "k < nodeIdCounter s" using jk(3) by auto
  with jk that show thesis by blast
qed

lemma wf_target_ex:
  assumes wf: "wf_state s" and k: "0 < k" "k < nodeIdCounter s"
  obtains l where "l \<in> set (links s)" and "target l = nid k"
proof -
  from k have "nid k \<in> set (map nid [1..<nodeIdCounter s])" by simp
  also from wf have "map nid [1..<nodeIdCounter s] = map target (links s)" by (simp add: wf_state_def)
  finally show thesis using that by auto
qed

lemma wf_reachable:
  assumes wf: "wf_state s"
  shows "k < nodeIdCounter s \<Longrightarrow>
    (''root'', nid k) \<in> ((\<lambda>l. (source l, target l)) ` set (links s))\<^sup>*"
proof (induction k rule: less_induct)
  case (less k)
  show ?case
  proof (cases "k = 0")
    case True
    then show ?thesis by simp
  next
    case False
    with less.prems wf obtain l where l: "l \<in> set (links s)" "target l = nid k"
      by (auto elim: wf_target_ex)
    from wf l(1) obtain j k' where jk: "j < k'" "k' < nodeIdCounter s" "source l = nid j" "target l = nid k'"
      by (rule wf_link)
    from jk(4) l(2) have "k' = k" by simp
    with jk have "j < k" "j < nodeIdCounter s" by simp_all
    then have "(''root'', nid j) \<in> ((\<lambda>l. (source l, target l)) ` set (links s))\<^sup>*"
      by (rule less.IH)
    moreover from l jk(3) have "(nid j, nid k) \<in> (\<lambda>l. (source l, target l)) ` set (links s)"
      by (metis (mono_tags, lifting) image_eqI)
    ultimately show ?thesis by (rule rtrancl_into_rtrancl)
  qed
qed

lemma wf_acyclic:
  assumes wf: "wf_state s"
  shows "acyclic ((\<lambda>l. (source l, target l)) ` set (links s))"
proof (rule acyclicI_order[where f = "\<lambda>x. nodeIdCounter s - the_inv nid x"])
  fix a b
  assume "(a, b) \<in> (\<lambda>l. (source l, target l)) ` set (links s)"
  then obtain l where l: "l \<in> set (links s)" "a = source l" "b = target l" by auto
  from wf l(1) obtain j k where jk: "j < k" "k < nodeIdCounter s" "source l = nid j" "target l = nid k"
    by (rule wf_link)
  have "the_inv nid (nid j) = j" "the_inv nid (nid k) = k"
    by (simp_all add: the_inv_f_f inj_nid)
  with l jk show "nodeIdCounter s - the_inv nid b < nodeIdCounter s - the_inv nid a"
    by simp
qed

lemma wf_distinct_ids:
  assumes wf: "wf_state s"
  shows "distinct (map id' (nodes s))" and "distinct (map target (links s))"
  using wf by (simp_all add: wf_state_def distinct_map inj_on_def)

lemma wf_one_incoming:
  assumes wf: "wf_state s" and n: "n \<in> set (nodes s)" and nr: "id' n \<noteq> ''root''"
  shows "length (filter (\<lambda>l. target l = id' n) (links s)) = 1"
proof -
  from n have "id' n \<in> set (map id' (nodes s))" by simp
  also from wf have "map id' (nodes s) = map nid [0..<nodeIdCounter s]" by (simp add: wf_state_def)
  finally obtain k where k: "k < nodeIdCounter s" "id' n = nid k" by auto
  with nr have "0 < k" by (cases k) simp_all
  with k have "id' n \<in> set (map nid [1..<nodeIdCounter s])" by simp
  also from wf have "map nid [1..<nodeIdCounter s] = map target (links s)" by (simp add: wf_state_def)
  finally have mem: "id' n \<in> set (map target (links s))" .
  have "length (filter (\<lambda>l. target l = id' n) (links s)) =
        length (filter (\<lambda>t. t = id' n) (map target (links s)))"
    by (simp add: filter_map comp_def)
  also have "\<dots> = card ({t. t = id' n} \<inter> set (map target (links s)))"
    by (rule distinct_length_filter) (rule wf_distinct_ids[OF wf])
  also from mem have "{t. t = id' n} \<inter> set (map target (links s)) = {id' n}" by auto
  finally show ?thesis by simp
qed

lemma wf_link_endpoints:
  assumes wf: "wf_state s" and l: "l \<in> set (links s)"
  shows "source l \<in> id' ` set (nodes s)" and "target l \<in> id' ` set (nodes s)"
proof -
  from wf l obtain j k where jk: "j < k" "k < nodeIdCounter s" "source l = nid j" "target l = nid k"
    by (rule wf_link)
  from wf have ids: "id' ` set (nodes s) = nid ` {0..<nodeIdCounter s}"
    by (metis wf_state_def set_map set_upt)
  from jk show "source l \<in> id' ` set (nodes s)" and "target l \<in> id' ` set (nodes s)"
    unfolding ids by auto
qed

subsection \<open>Labels and parents follow the keys\<close>

lemma named_initialState: "named_state initialState"
  by (simp add: named_state_def initialState_def rootNode_def)

lemma named_processPart:
  assumes nm: "named_state s" and sep: "CHR ''/'' \<notin> set part"
    and step: "processPart len (part, i) s = Inr s'"
  shows "named_state s'"
proof (cases s part rule: processPart_cases)
  case fresh
  let ?k = "joinPath (currentPath s) part"
  let ?v = "''node_'' @ string_of_nat (nodeIdCounter s)"
  from nm obtain rest where pm: "pathMap s = ([], ''root'') # rest"
    by (cases "pathMap s") (auto simp: named_state_def)
  from step have s': "s' = s\<lparr>nodes := nodes s @
               [\<lparr>id' = ?v, group = (if int i = int len - 1 then extGroup part else 5), label = part\<rparr>],
            links := links s @ [\<lparr>source = parentId s, target = ?v, value' = 1\<rparr>],
            pathMap := pathMap s @ [(?k, ?v)],
            nodeIdCounter := Suc (nodeIdCounter s),
            currentPath := ?k,
            parentId := ?v\<rparr>"
    unfolding processPart_fresh[OF fresh] by simp
  have tl: "tl (map fst (pathMap s) @ [?k]) = tl (map fst (pathMap s)) @ [?k]"
    by (simp add: pm)
  have 1: "map label (nodes s') = ''root'' # map basename (tl (map fst (pathMap s')))"
    using nm by (simp add: s' tl named_state_def basename_joinPath[OF sep])
  have old: "map_of (pathMap s @ [(?k, ?v)]) (dirname k) = map_of (pathMap s) (dirname k)"
    if "k \<in> set (tl (map fst (pathMap s)))" for k
  proof -
    from that have "map_of (pathMap s) (dirname k) \<in>
        set (map (\<lambda>k. map_of (pathMap s) (dirname k)) (tl (map fst (pathMap s))))"
      by simp
    also from nm have "\<dots> = set (map (\<lambda>l. Some (source l)) (links s))"
      by (simp only: named_state_def)
    finally obtain y where "map_of (pathMap s) (dirname k) = Some y" by auto
    then show ?thesis by (simp add: map_of_snoc_known)
  qed
  from nm have "map_of (pathMap s) (currentPath s) = Some (parentId s)"
    by (simp add: named_state_def)
  then have new: "map_of (pathMap s @ [(?k, ?v)]) (dirname ?k) = Some (parentId s)"
    by (simp add: dirname_joinPath[OF sep] map_of_snoc_known)
  have "map (\<lambda>k. map_of (pathMap s @ [(?k, ?v)]) (dirname k)) (tl (map fst (pathMap s))) =
        map (\<lambda>k. map_of (pathMap s) (dirname k)) (tl (map fst (pathMap s)))"
    by (rule map_cong[OF refl]) (rule old)
  also from nm have "\<dots> = map (\<lambda>l. Some (source l)) (links s)"
    by (simp only: named_state_def)
  finally have 2: "map (\<lambda>k. map_of (pathMap s') (dirname k)) (tl (map fst (pathMap s'))) =
       map (\<lambda>l. Some (source l)) (links s')"
    using new by (simp add: s' tl)
  have 3: "map_of (pathMap s') (currentPath s') = Some (parentId s')"
    using map_of_snoc_fresh[OF fresh] by (simp add: s' del: map_of_append)
  have 4: "take 1 (pathMap s') = [([], ''root'')]"
    by (simp add: s' pm)
  from 1 2 3 4 show ?thesis unfolding named_state_def by blast
next
  case (known v)
  from step have s': "s' = s\<lparr>currentPath := joinPath (currentPath s) part, parentId := v\<rparr>"
    unfolding processPart_known[OF known] by simp
  from nm known show ?thesis unfolding s' named_state_def by simp
qed

lemma named_processFile:
  assumes nm: "named_state s" and step: "processFile file s = Inr s'"
  shows "named_state s'"
proof -
  let ?parts = "js_split CHR ''/'' (path file)"
  from nm obtain rest where pm: "pathMap s = ([], ''root'') # rest"
    by (cases "pathMap s") (auto simp: named_state_def)
  with nm have "named_state (s\<lparr>currentPath := [], parentId := ''root''\<rparr>)"
    by (simp add: named_state_def)
  moreover from step
  have "forEach (processPart (length ?parts)) (zip ?parts [0..<length ?parts])
          (s\<lparr>currentPath := [], parentId := ''root''\<rparr>) = Inr s'"
    by (simp add: processFile_def Let_def)
  ultimately show ?thesis
  proof (rule forEach_invariant_set)
    fix x s1 s2
    assume x: "x \<in> set (zip ?parts [0..<length ?parts])"
      and "named_state s1" and "processPart (length ?parts) x s1 = Inr s2"
    obtain part i where xi: "x = (part, i)" by (cases x)
    with x have "part \<in> set ?parts" by (auto dest: set_zip_leftD)
    then have sep: "CHR ''/'' \<notin> set part" by (rule js_split_tokens)
    from \<open>processPart (length ?parts) x s1 = Inr s2\<close>
    have "processPart (length ?parts) (part, i) s1 = Inr s2" by (simp only: xi)
    with \<open>named_state s1\<close> sep show "named_state s2" by (rule named_processPart)
  qed
qed

lemma named_assemble: "assemble tree = Inr s \<Longrightarrow> named_state s"
  unfolding assemble_def
  by (rule forEach_invariant[where P = named_state and s = initialState])
     (rule named_initialState, assumption, rule named_processFile)

subsection \<open>Groups follow the first occurrence\<close>

lemma tagged_processPart:
  assumes tg: "tagged_state s occs" and step: "processPart len (part, i) s = Inr s'"
  shows "tagged_state s'
    (occs @ [(joinPath (currentPath s) part, if int i = int len - 1 then extGroup part else 5)])"
proof -
  let ?k = "joinPath (currentPath s) part"
  let ?g = "if int i = int len - 1 then extGroup part else 5"
  let ?v = "''node_'' @ string_of_nat (nodeIdCounter s)"
  have old: "map_of (occs @ [(?k, ?g)]) k = map_of occs k"
    if "k \<in> set (tl (map fst (pathMap s)))" for k
  proof -
    from that have "map_of occs k \<in> set (map (map_of occs) (tl (map fst (pathMap s))))"
      by simp
    also from tg have "\<dots> = set (map (\<lambda>n. Some (group n)) (tl (nodes s)))"
      by (simp only: tagged_state_def)
    finally obtain y where "map_of occs k = Some y" by auto
    then show ?thesis by (simp add: map_of_append_known)
  qed
  have olds: "map (map_of (occs @ [(?k, ?g)])) (tl (map fst (pathMap s))) =
      map (\<lambda>n. Some (group n)) (tl (nodes s))"
  proof -
    have "map (map_of (occs @ [(?k, ?g)])) (tl (map fst (pathMap s))) =
        map (map_of occs) (tl (map fst (pathMap s)))"
      by (rule map_cong[OF refl]) (rule old)
    with tg show ?thesis by (simp only: tagged_state_def)
  qed
  from tg have ne: "nodes s \<noteq> []" "pathMap s \<noteq> []"
    and sub: "set (map fst occs) \<subseteq> set (map fst (pathMap s))"
    and val: "map value' (links s) = replicate (length (links s)) 1"
    unfolding tagged_state_def by blast+
  show ?thesis
  proof (cases s part rule: processPart_cases)
    case fresh
    from step have s': "s' = s\<lparr>nodes := nodes s @ [\<lparr>id' = ?v, group = ?g, label = part\<rparr>],
            links := links s @ [\<lparr>source = parentId s, target = ?v, value' = 1\<rparr>],
            pathMap := pathMap s @ [(?k, ?v)],
            nodeIdCounter := Suc (nodeIdCounter s),
            currentPath := ?k,
            parentId := ?v\<rparr>"
      unfolding processPart_fresh[OF fresh] by simp
    from fresh have "?k \<notin> set (map fst (pathMap s))" by (simp add: map_of_eq_None_iff)
    with sub have "?k \<notin> set (map fst occs)" by blast
    then have "map_of occs ?k = None" by (simp add: map_of_eq_None_iff)
    then have new: "map_of (occs @ [(?k, ?g)]) ?k = Some ?g" by (rule map_of_snoc_fresh)
    have 1: "map (\<lambda>n. Some (group n)) (tl (nodes s')) =
        map (map_of (occs @ [(?k, ?g)])) (tl (map fst (pathMap s')))"
      using ne olds new by (simp add: s' del: map_of_append)
    have 2: "set (map fst (occs @ [(?k, ?g)])) \<subseteq> set (map fst (pathMap s'))"
      using sub by (auto simp: s')
    have 3: "map value' (links s') = replicate (length (links s')) 1"
      using val by (simp add: s' replicate_append_same)
    from 1 2 3 ne show ?thesis unfolding tagged_state_def by (simp add: s')
  next
    case (known v)
    from step have s': "s' = s\<lparr>currentPath := ?k, parentId := v\<rparr>"
      unfolding processPart_known[OF known] by simp
    from known have "?k \<in> set (map fst (pathMap s))"
      by (metis map_of_eq_None_iff option.distinct(1) set_map)
    with sub have 2: "set (map fst (occs @ [(?k, ?g)])) \<subseteq> set (map fst (pathMap s))" by auto
    from olds 2 ne val show ?thesis unfolding tagged_state_def by (simp add: s')
  qed
qed

lemma tagged_parts:
  "tagged_state s occs \<Longrightarrow> forEach (processPart len) pis s = Inr s' \<Longrightarrow>
   tagged_state s' (occs @ part_groups len (currentPath s) pis)"
proof (induction pis arbitrary: s occs)
  case Nil
  then show ?case by simp
next
  case (Cons pi pis)
  obtain part i where pi: "pi = (part, i)" by (cases pi)
  from Cons.prems(2) obtain s1 where s1: "processPart len (part, i) s = Inr s1"
    "forEach (processPart len) pis s1 = Inr s'"
    by (auto simp: pi split: sum.splits)
  from tagged_processPart[OF Cons.prems(1) s1(1)]
  have "tagged_state s1
    (occs @ [(joinPath (currentPath s) part, if int i = int len - 1 then extGroup part else 5)])" .
  from Cons.IH[OF this s1(2)] processPart_keys(2)[OF s1(1)] show ?case
    by (simp add: pi)
qed

lemma tagged_processFile:
  assumes tg: "tagged_state s occs" and step: "processFile file s = Inr s'"
  shows "tagged_state s' (occs @ file_groups (path file))"
proof -
  let ?parts = "js_split CHR ''/'' (path file)"
  from tg have "tagged_state (s\<lparr>currentPath := [], parentId := ''root''\<rparr>) occs"
    by (simp add: tagged_state_def)
  moreover from step
  have "forEach (processPart (length ?parts)) (zip ?parts [0..<length ?parts])
          (s\<lparr>currentPath := [], parentId := ''root''\<rparr>) = Inr s'"
    by (simp add: processFile_def Let_def)
  ultimately have "tagged_state s' (occs @ part_groups (length ?parts)
      (currentPath (s\<lparr>currentPath := [], parentId := ''root''\<rparr>)) (zip ?parts [0..<length ?parts]))"
    by (rule tagged_parts)
  then show ?thesis by (simp add: part_groups_file)
qed

lemma tagged_files:
  "tagged_state s occs \<Longrightarrow> forEach processFile files s = Inr s' \<Longrightarrow>
   tagged_state s' (occs @ all_groups files)"
proof (induction files arbitrary: s occs)
  case Nil
  then show ?case by (simp add: all_groups_def)
next
  case (Cons entry files)
  from Cons.prems(2) obtain s1 where s1: "processFile entry s = Inr s1"
    "forEach processFile files s1 = Inr s'"
    by (auto split: sum.splits)
  from tagged_processFile[OF Cons.prems(1) s1(1)]
  have "tagged_state s1 (occs @ file_groups (path entry))" .
  from Cons.IH[OF this s1(2)] show ?case by (simp add: all_groups_def)
qed

lemma tagged_assemble:
  assumes "assemble tree = Inr s"
  shows "tagged_state s (all_groups (take 100 tree))"
proof -
  have "tagged_state initialState []"
    by (simp add: tagged_state_def initialState_def)
  from tagged_files[OF this assms[unfolded assemble_def]] show ?thesis by simp
qed

subsection \<open>Nodes with the empty label\<close>






section \<open>The claims about the Graph Assembler\<close>

text \<open>
  Claim C1. Whenever the assembler returns a graph: the node ids are pairwise distinct,
  every edge joins two nodes of the graph, every node whose id is not \<open>root\<close> is the
  target of exactly one edge, every node is reachable from \<open>root\<close> along the edges
  (no orphan), and the edge relation has no cycle. So the edges form a tree rooted at
  \<open>root\<close>.
\<close>

theorem graph_is_tree:
  assumes "generateGraphFromTree tree = Inr g"
  shows "distinct (map id' (nodes g)) \<and>
    (\<forall>l\<in>set (links g). source l \<in> id' ` set (nodes g) \<and> target l \<in> id' ` set (nodes g)) \<and>
    (\<forall>n\<in>set (nodes g). id' n \<noteq> ''root'' \<longrightarrow>
           length (filter (\<lambda>l. target l = id' n) (links g)) = 1) \<and>
    (\<forall>n\<in>set (nodes g). (''root'', id' n) \<in> (edges g)\<^sup>*) \<and>
    acyclic (edges g)"
proof -
  from assms obtain s where s: "wf_state s" "nodes g = nodes s" "links g = links s"
    by (rule generateGraphFromTree_Inr)
  have 1: "distinct (map id' (nodes g))" using s by (simp add: wf_distinct_ids)
  have 2: "\<forall>l\<in>set (links g). source l \<in> id' ` set (nodes g) \<and> target l \<in> id' ` set (nodes g)"
    using s by (simp add: wf_link_endpoints)
  have 3: "\<forall>n\<in>set (nodes g). id' n \<noteq> ''root'' \<longrightarrow>
           length (filter (\<lambda>l. target l = id' n) (links g)) = 1"
    using s by (simp add: wf_one_incoming)
  have 4: "\<forall>n\<in>set (nodes g). (''root'', id' n) \<in> (edges g)\<^sup>*"
  proof
    fix n assume "n \<in> set (nodes g)"
    then have "id' n \<in> set (map id' (nodes s))" using s by simp
    also from s have "map id' (nodes s) = map nid [0..<nodeIdCounter s]" by (simp add: wf_state_def)
    finally obtain k where k: "k < nodeIdCounter s" "id' n = nid k" by auto
    from wf_reachable[OF s(1) k(1)] show "(''root'', id' n) \<in> (edges g)\<^sup>*"
      by (simp add: edges_def k s)
  qed
  have 5: "acyclic (edges g)" using wf_acyclic[OF s(1)] by (simp add: edges_def s)
  from 1 2 3 4 5 show ?thesis by blast
qed

theorem graph_is_tree_witness:
  "generateGraphFromTree
     [\<lparr>path = ''src/a.ts'', type' = ''blob''\<rparr>, \<lparr>path = ''src/b.ts'', type' = ''blob''\<rparr>] =
   Inr \<lparr>nodes = [\<lparr>id' = ''root'', group = 0, label = ''root''\<rparr>,
                 \<lparr>id' = ''node_1'', group = 5, label = ''src''\<rparr>,
                 \<lparr>id' = ''node_2'', group = 2, label = ''a.ts''\<rparr>,
                 \<lparr>id' = ''node_3'', group = 2, label = ''b.ts''\<rparr>],
        links = [\<lparr>source = ''root'', target = ''node_1'', value' = 1\<rparr>,
                 \<lparr>source = ''node_1'', target = ''node_2'', value' = 1\<rparr>,
                 \<lparr>source = ''node_1'', target = ''node_3'', value' = 1\<rparr>]\<rparr> \<and>
   length (filter (\<lambda>l. target l = ''node_3'')
     [\<lparr>source = ''root'', target = ''node_1'', value' = 1\<rparr>,
      \<lparr>source = ''node_1'', target = ''node_2'', value' = 1\<rparr>,
      \<lparr>source = ''node_1'', target = ''node_3'', value' = 1\<rparr>]) = 1 \<and>
   (''root'', ''node_3'') \<in>
     {(''root'', ''node_1''), (''node_1'', ''node_2''), (''node_1'', ''node_3'')}\<^sup>* \<and>
   acyclic {(''root'', ''node_1''), (''node_1'', ''node_2''), (''node_1'', ''node_3'')}"
  (is "?run = Inr ?G \<and> ?one \<and> ?reach \<and> ?acyc")
proof -
  have h: "?run = Inr ?G" by code_simp
  have e: "edges ?G = {(''root'', ''node_1''), (''node_1'', ''node_2''), (''node_1'', ''node_3'')}"
    by (simp add: edges_def)
  have n: "\<lparr>id' = ''node_3'', group = 2, label = ''b.ts''\<rparr> \<in> set (nodes ?G)" by simp
  from graph_is_tree[OF h] n have "length (filter (\<lambda>l. target l = ''node_3'') (links ?G)) = 1"
    and "(''root'', ''node_3'') \<in> (edges ?G)\<^sup>*" and "acyclic (edges ?G)"
    by (fastforce, fastforce, blast)
  with h show ?thesis unfolding e by simp
qed



text \<open>
  Claim C3 fails on a final segment that has no \<open>'.'\<close> and is spelled like one of the
  listed extensions: \<open>split('.').pop()\<close> then returns the whole segment, so the entry
  \<open>config\<close> gets group 4 and the entry \<open>ts\<close> gets group 2, where a segment with no
  extension is to get group 1 (as \<open>README\<close> does).
\<close>

theorem extGroup_without_dot:
  "extGroup ''config'' = 4 \<and> extGroup ''ts'' = 2 \<and> extGroup ''README'' = 1 \<and>
   generateGraphFromTree [\<lparr>path = ''config'', type' = ''blob''\<rparr>] =
   Inr \<lparr>nodes = [\<lparr>id' = ''root'', group = 0, label = ''root''\<rparr>,
                 \<lparr>id' = ''node_1'', group = 4, label = ''config''\<rparr>],
        links = [\<lparr>source = ''root'', target = ''node_1'', value' = 1\<rparr>]\<rparr>"
  by code_simp

text \<open>
  Claim C4. The assembler applied to a collection equals the assembler applied to its
  first 100 entries: whatever stands at positions 101 and beyond changes nothing.
\<close>

theorem generateGraphFromTree_first_100:
  "generateGraphFromTree tree = generateGraphFromTree (take 100 tree) \<and>
   (take 100 tree = take 100 tree' \<longrightarrow>
      generateGraphFromTree tree = generateGraphFromTree tree')"
  by (simp add: generateGraphFromTree_def assemble_def)

theorem generateGraphFromTree_first_100_witness:
  "take 100 (replicate 100 \<lparr>path = ''a/b.ts'', type' = ''blob''\<rparr> @
             [\<lparr>path = ''c.css'', type' = ''blob''\<rparr>]) =
   take 100 (replicate 100 \<lparr>path = ''a/b.ts'', type' = ''blob''\<rparr>) \<and>
   generateGraphFromTree (replicate 100 \<lparr>path = ''a/b.ts'', type' = ''blob''\<rparr> @
             [\<lparr>path = ''c.css'', type' = ''blob''\<rparr>]) =
   generateGraphFromTree (replicate 100 \<lparr>path = ''a/b.ts'', type' = ''blob''\<rparr>)"
proof -
  have h: "take 100 (replicate 100 \<lparr>path = ''a/b.ts'', type' = ''blob''\<rparr> @
             [\<lparr>path = ''c.css'', type' = ''blob''\<rparr>]) =
   take 100 (replicate 100 \<lparr>path = ''a/b.ts'', type' = ''blob''\<rparr>)"
    by simp
  from generateGraphFromTree_first_100[of
      "replicate 100 \<lparr>path = ''a/b.ts'', type' = ''blob''\<rparr> @ [\<lparr>path = ''c.css'', type' = ''blob''\<rparr>]"
      "replicate 100 \<lparr>path = ''a/b.ts'', type' = ''blob''\<rparr>"] h
  show ?thesis by blast
qed




text \<open>
  Claim C6. Whenever the assembler returns a graph, the nodes whose id is \<open>root\<close> are
  exactly one node, it has group 0 and label \<open>root\<close>, and \<open>root\<close> is the target of no
  edge.
\<close>

theorem root_node_unique:
  assumes "generateGraphFromTree tree = Inr g"
  shows "filter (\<lambda>n. id' n = ''root'') (nodes g) =
           [\<lparr>id' = ''root'', group = 0, label = ''root''\<rparr>] \<and>
         ''root'' \<notin> target ` set (links g)"
proof -
  from assms obtain s where s: "wf_state s" "nodes g = nodes s" "links g = links s"
    by (rule generateGraphFromTree_Inr)
  from s(1) obtain rest where rest: "nodes s = rootNode # rest"
    "map id' rest = map nid [Suc 0..<nodeIdCounter s]"
    by (rule wf_nodes_root)
  have "id' n \<noteq> ''root''" if "n \<in> set rest" for n
  proof -
    from that have "id' n \<in> set (map id' rest)" by simp
    then obtain k where "0 < k" "id' n = nid k" unfolding rest(2) by auto
    then show ?thesis by simp
  qed
  then have "filter (\<lambda>n. id' n = ''root'') rest = []" by (simp add: filter_empty_conv)
  then have 1: "filter (\<lambda>n. id' n = ''root'') (nodes g) =
           [\<lparr>id' = ''root'', group = 0, label = ''root''\<rparr>]"
    by (simp add: s rest rootNode_def)
  have 2: "''root'' \<notin> target ` set (links g)"
  proof
    assume "''root'' \<in> target ` set (links g)"
    then have "''root'' \<in> set (map target (links s))" by (simp add: s)
    also from s(1) have "map target (links s) = map nid [1..<nodeIdCounter s]"
      by (simp add: wf_state_def)
    finally show False by auto
  qed
  from 1 2 show ?thesis ..
qed

theorem root_node_unique_witness:
  "generateGraphFromTree [\<lparr>path = ''README'', type' = ''blob''\<rparr>] =
     Inr \<lparr>nodes = [\<lparr>id' = ''root'', group = 0, label = ''root''\<rparr>,
                    \<lparr>id' = ''node_1'', group = 1, label = ''README''\<rparr>],
          links = [\<lparr>source = ''root'', target = ''node_1'', value' = 1\<rparr>]\<rparr> \<and>
   filter (\<lambda>n. id' n = ''root'')
     [\<lparr>id' = ''root'', group = 0, label = ''root''\<rparr>,
      \<lparr>id' = ''node_1'', group = 1, label = ''README''\<rparr>] =
     [\<lparr>id' = ''root'', group = 0, label = ''root''\<rparr>] \<and>
   ''root'' \<notin> target ` set [\<lparr>source = ''root'', target = ''node_1'', value' = 1\<rparr>]"
  (is "?run = Inr ?G \<and> _")
proof -
  have h: "?run = Inr ?G" by code_simp
  from root_node_unique[OF h] h show ?thesis by simp
qed

text \<open>
  Claim C7. The graph is a function of the ordered list of paths alone: the model has no
  state outside the call (the counter and the \<open>pathMap\<close> are initialised in it), and two
  inputs with the same paths in the same order, whatever their \<open>type\<close> fields, give the
  same result. The result is determined as follows. Let \<open>ks\<close> be the empty prefix followed
  by the distinct cumulative prefixes of the first 100 entries in first-seen order
  (duplicate paths add nothing to it). Then \<open>pathMap\<close> maps the prefix at position \<open>i\<close>
  of \<open>ks\<close> to \<open>nid i\<close>, that is \<open>root\<close> for 0 and \<open>node_i\<close> otherwise; the node list
  carries these ids in this order; the label of a node is the last segment of its prefix
  and its group is the group computed at the first occurrence of the prefix; the edge
  list has one edge per prefix after the first, in the same order, whose target is the
  node of the prefix, whose source is the id registered for the prefix without its last
  segment, and whose value is 1.
\<close>

theorem assembler_deterministic:
  "(map path tree = map path tree' \<longrightarrow>
      generateGraphFromTree tree = generateGraphFromTree tree') \<and>
   (assemble tree = Inr s \<longrightarrow>
      generateGraphFromTree tree = Inr \<lparr>nodes = nodes s, links = links s\<rparr> \<and>
      pathMap s = zip (registered_prefixes tree)
                    (map nid [0..<length (registered_prefixes tree)]) \<and>
      map id' (nodes s) = map nid [0..<length (registered_prefixes tree)] \<and>
      map label (nodes s) = ''root'' # map basename (tl (registered_prefixes tree)) \<and>
      map (\<lambda>n. Some (group n)) (nodes s) =
        Some 0 # map (map_of (all_groups (take 100 tree))) (tl (registered_prefixes tree)) \<and>
      map target (links s) = map nid [1..<length (registered_prefixes tree)] \<and>
      map (\<lambda>l. Some (source l)) (links s) =
        map (\<lambda>k. map_of (pathMap s) (dirname k)) (tl (registered_prefixes tree)) \<and>
      map value' (links s) = replicate (length (registered_prefixes tree) - 1) 1)"
  (is "?same \<and> (_ \<longrightarrow> ?A)")
proof (rule conjI; rule impI)
  assume "map path tree = map path tree'"
  then have "map path (take 100 tree) = map path (take 100 tree')"
    by (simp add: take_map[symmetric])
  then have "assemble tree = assemble tree'"
    unfolding assemble_def by (rule forEach_path_only)
  then show "generateGraphFromTree tree = generateGraphFromTree tree'"
    by (simp add: generateGraphFromTree_def)
next
  let ?ks = "registered_prefixes tree"
  assume run: "assemble tree = Inr s"
  then have wf: "wf_state s" and nm: "named_state s"
    and tg: "tagged_state s (all_groups (take 100 tree))"
    by (rule wf_assemble, rule named_assemble, rule tagged_assemble)
  from run have keys: "map fst (pathMap s) = ?ks"
    unfolding registered_prefixes_def by (rule assemble_keys)
  then have "length ?ks = length (pathMap s)" by (metis length_map)
  with wf have n: "nodeIdCounter s = length ?ks" by (simp add: wf_lengths)
  from wf have vals: "map snd (pathMap s) = map nid [0..<length ?ks]"
    by (simp add: wf_state_def n)
  have 1: "generateGraphFromTree tree = Inr \<lparr>nodes = nodes s, links = links s\<rparr>"
    using run by (rule generateGraphFromTree_assemble)
  have "pathMap s = zip (map fst (pathMap s)) (map snd (pathMap s))"
    by (simp only: zip_map_fst_snd)
  then have 2: "pathMap s = zip ?ks (map nid [0..<length ?ks])"
    by (simp only: keys vals)
  have 3: "map id' (nodes s) = map nid [0..<length ?ks]"
    using wf by (simp add: wf_state_def n)
  have 4: "map label (nodes s) = ''root'' # map basename (tl ?ks)"
    using nm by (simp add: named_state_def keys)
  from wf obtain rest where rest: "nodes s = rootNode # rest"
    by (rule wf_nodes_root)
  from tg have "map (\<lambda>n. Some (group n)) (tl (nodes s)) =
      map (map_of (all_groups (take 100 tree))) (tl ?ks)"
    by (simp add: tagged_state_def keys)
  then have 5: "map (\<lambda>n. Some (group n)) (nodes s) =
        Some 0 # map (map_of (all_groups (take 100 tree))) (tl ?ks)"
    by (simp add: rest rootNode_def)
  have 6: "map target (links s) = map nid [1..<length ?ks]"
    using wf by (simp add: wf_state_def n)
  have 7: "map (\<lambda>l. Some (source l)) (links s) =
        map (\<lambda>k. map_of (pathMap s) (dirname k)) (tl ?ks)"
    using nm by (simp add: named_state_def keys)
  from wf have "length (links s) = length ?ks - 1"
    using wf_lengths(3)[OF wf] by (simp add: n)
  with tg have 8: "map value' (links s) = replicate (length ?ks - 1) 1"
    by (simp add: tagged_state_def)
  from 1 2 3 4 5 6 7 8
  show "generateGraphFromTree tree = Inr \<lparr>nodes = nodes s, links = links s\<rparr> \<and>
      pathMap s = zip ?ks (map nid [0..<length ?ks]) \<and>
      map id' (nodes s) = map nid [0..<length ?ks] \<and>
      map label (nodes s) = ''root'' # map basename (tl ?ks) \<and>
      map (\<lambda>n. Some (group n)) (nodes s) =
        Some 0 # map (map_of (all_groups (take 100 tree))) (tl ?ks) \<and>
      map target (links s) = map nid [1..<length ?ks] \<and>
      map (\<lambda>l. Some (source l)) (links s) =
        map (\<lambda>k. map_of (pathMap s) (dirname k)) (tl ?ks) \<and>
      map value' (links s) = replicate (length ?ks - 1) 1"
    by blast
qed

theorem assembler_deterministic_witness:
  "map path [\<lparr>path = ''a/b.ts'', type' = ''blob''\<rparr>, \<lparr>path = ''a/b.ts'', type' = ''blob''\<rparr>,
             \<lparr>path = ''c'', type' = ''blob''\<rparr>] =
   map path [\<lparr>path = ''a/b.ts'', type' = ''tree''\<rparr>, \<lparr>path = ''a/b.ts'', type' = ''blob''\<rparr>,
             \<lparr>path = ''c'', type' = ''commit''\<rparr>] \<and>
   generateGraphFromTree
     [\<lparr>path = ''a/b.ts'', type' = ''blob''\<rparr>, \<lparr>path = ''a/b.ts'', type' = ''blob''\<rparr>,
      \<lparr>path = ''c'', type' = ''blob''\<rparr>] =
   generateGraphFromTree
     [\<lparr>path = ''a/b.ts'', type' = ''tree''\<rparr>, \<lparr>path = ''a/b.ts'', type' = ''blob''\<rparr>,
      \<lparr>path = ''c'', type' = ''commit''\<rparr>] \<and>
   assemble [\<lparr>path = ''a/b.ts'', type' = ''blob''\<rparr>, \<lparr>path = ''a/b.ts'', type' = ''blob''\<rparr>,
             \<lparr>path = ''c'', type' = ''blob''\<rparr>] =
   Inr \<lparr>nodes = [\<lparr>id' = ''root'', group = 0, label = ''root''\<rparr>,
                 \<lparr>id' = ''node_1'', group = 5, label = ''a''\<rparr>,
                 \<lparr>id' = ''node_2'', group = 2, label = ''b.ts''\<rparr>,
                 \<lparr>id' = ''node_3'', group = 1, label = ''c''\<rparr>],
        links = [\<lparr>source = ''root'', target = ''node_1'', value' = 1\<rparr>,
                 \<lparr>source = ''node_1'', target = ''node_2'', value' = 1\<rparr>,
                 \<lparr>source = ''root'', target = ''node_3'', value' = 1\<rparr>],
        pathMap = [([], ''root''), (''a'', ''node_1''), (''a/b.ts'', ''node_2''),
                   (''c'', ''node_3'')],
        nodeIdCounter = 4, currentPath = ''c'', parentId = ''node_3''\<rparr> \<and>
   registered_prefixes
     [\<lparr>path = ''a/b.ts'', type' = ''blob''\<rparr>, \<lparr>path = ''a/b.ts'', type' = ''blob''\<rparr>,
      \<lparr>path = ''c'', type' = ''blob''\<rparr>] = [[], ''a'', ''a/b.ts'', ''c''] \<and>
   zip [[], ''a'', ''a/b.ts'', ''c''] (map nid [0..<length [[], ''a'', ''a/b.ts'', ''c'']]) =
     [([], ''root''), (''a'', ''node_1''), (''a/b.ts'', ''node_2''), (''c'', ''node_3'')] \<and>
   ''root'' # map basename (tl [[], ''a'', ''a/b.ts'', ''c'']) =
     [''root'', ''a'', ''b.ts'', ''c'']"
  (is "?paths \<and> ?same \<and> ?run = Inr ?S \<and> ?keys = ?KS \<and> ?zip \<and> ?labels")
proof -
  have p: ?paths by simp
  have h: "?run = Inr ?S" by code_simp
  have k: "?keys = ?KS" by code_simp
  note t = assembler_deterministic[of
      "[\<lparr>path = ''a/b.ts'', type' = ''blob''\<rparr>, \<lparr>path = ''a/b.ts'', type' = ''blob''\<rparr>,
        \<lparr>path = ''c'', type' = ''blob''\<rparr>]"
      "[\<lparr>path = ''a/b.ts'', type' = ''tree''\<rparr>, \<lparr>path = ''a/b.ts'', type' = ''blob''\<rparr>,
        \<lparr>path = ''c'', type' = ''commit''\<rparr>]" ?S]
  from t p have s: ?same by blast
  from t h have "pathMap ?S = zip ?keys (map nid [0..<length ?keys])"
    and "map label (nodes ?S) = ''root'' # map basename (tl ?keys)"
    by blast+
  then have z0: "pathMap ?S = zip ?KS (map nid [0..<length ?KS])"
    and l0: "map label (nodes ?S) = ''root'' # map basename (tl ?KS)"
    by (simp_all only: k)
  have "pathMap ?S = [([], ''root''), (''a'', ''node_1''), (''a/b.ts'', ''node_2''), (''c'', ''node_3'')]"
    by simp
  with z0 have z: ?zip by (simp only:)
  have "map label (nodes ?S) = [''root'', ''a'', ''b.ts'', ''c'']" by simp
  with l0 have l: ?labels by (simp only:)
  from p s h k z l show ?thesis by blast
qed

text \<open>
  Claim C8. The assembler returns a graph on every input, because the body of the inner
  loop returns a state from every state: the lookup of the current prefix after a segment
  has been processed never fails. On the empty collection the graph is the root node alone,
  with no edge.
\<close>

theorem generateGraphFromTree_total:
  "(\<exists>s'. processPart len pi s = Inr s') \<and>
   (\<exists>g. generateGraphFromTree tree = Inr g) \<and>
   generateGraphFromTree [] =
     Inr \<lparr>nodes = [\<lparr>id' = ''root'', group = 0, label = ''root''\<rparr>], links = []\<rparr>"
proof -
  obtain s where "assemble tree = Inr s" using assemble_total by blast
  then have "\<exists>g. generateGraphFromTree tree = Inr g" by (simp add: generateGraphFromTree_def)
  moreover have "generateGraphFromTree [] =
     Inr \<lparr>nodes = [\<lparr>id' = ''root'', group = 0, label = ''root''\<rparr>], links = []\<rparr>"
    by (simp add: generateGraphFromTree_def assemble_def initialState_def rootNode_def)
  ultimately show ?thesis using processPart_total by blast
qed

text \<open>
  Claim C9. A node, once created, is never changed: the nodes and edges produced from the
  first \<open>k\<close> entries are an initial segment of the nodes and edges produced from the whole
  input, so a later entry cannot update the group that the first entry gave a node. When a
  path that was classified as a file comes back as a proper prefix of a later path, the
  children are attached to the file's node: the graph of \<open>a.ts\<close> followed by \<open>a.ts/b\<close>
  has the node \<open>node_1\<close> with group 2 and an outgoing edge.
\<close>

theorem group_fixed_at_creation:
  "(generateGraphFromTree (take k tree) = Inr g1 \<and> generateGraphFromTree tree = Inr g2 \<longrightarrow>
      prefix (nodes g1) (nodes g2) \<and> prefix (links g1) (links g2)) \<and>
   generateGraphFromTree
     [\<lparr>path = ''a.ts'', type' = ''blob''\<rparr>, \<lparr>path = ''a.ts/b'', type' = ''blob''\<rparr>] =
   Inr \<lparr>nodes = [\<lparr>id' = ''root'', group = 0, label = ''root''\<rparr>,
                 \<lparr>id' = ''node_1'', group = 2, label = ''a.ts''\<rparr>,
                 \<lparr>id' = ''node_2'', group = 1, label = ''b''\<rparr>],
        links = [\<lparr>source = ''root'', target = ''node_1'', value' = 1\<rparr>,
                 \<lparr>source = ''node_1'', target = ''node_2'', value' = 1\<rparr>]\<rparr>"
proof (intro conjI impI)
  assume a: "generateGraphFromTree (take k tree) = Inr g1 \<and> generateGraphFromTree tree = Inr g2"
  then have a1: "generateGraphFromTree (take k tree) = Inr g1"
    and a2: "generateGraphFromTree tree = Inr g2" by simp_all
  from a1 obtain s1 where s1: "assemble (take k tree) = Inr s1" "nodes g1 = nodes s1" "links g1 = links s1"
    by (rule generateGraphFromTree_Inr)
  from a2 obtain s2 where s2: "assemble tree = Inr s2" "nodes g2 = nodes s2" "links g2 = links s2"
    by (rule generateGraphFromTree_Inr)
  have "take 100 (take k tree) = take (min 100 k) (take 100 tree)"
    by (simp add: min_def)
  then have "take 100 tree = take 100 (take k tree) @ drop (min 100 k) (take 100 tree)"
    by (simp only: append_take_drop_id)
  then have "forEach processFile (take 100 (take k tree) @ drop (min 100 k) (take 100 tree))
      initialState = Inr s2"
    using s2(1) by (simp add: assemble_def)
  with s1(1) have "forEach processFile (drop (min 100 k) (take 100 tree)) s1 = Inr s2"
    by (simp add: forEach_append assemble_def)
  from forEach_extends[OF this processFile_extends]
  show "prefix (nodes g1) (nodes g2)" and "prefix (links g1) (links g2)"
    by (simp_all add: s1 s2)
next
  show "generateGraphFromTree
     [\<lparr>path = ''a.ts'', type' = ''blob''\<rparr>, \<lparr>path = ''a.ts/b'', type' = ''blob''\<rparr>] =
   Inr \<lparr>nodes = [\<lparr>id' = ''root'', group = 0, label = ''root''\<rparr>,
                 \<lparr>id' = ''node_1'', group = 2, label = ''a.ts''\<rparr>,
                 \<lparr>id' = ''node_2'', group = 1, label = ''b''\<rparr>],
        links = [\<lparr>source = ''root'', target = ''node_1'', value' = 1\<rparr>,
                 \<lparr>source = ''node_1'', target = ''node_2'', value' = 1\<rparr>]\<rparr>"
    by code_simp
qed

theorem group_fixed_at_creation_witness:
  "generateGraphFromTree (take 1
     [\<lparr>path = ''a.ts'', type' = ''blob''\<rparr>, \<lparr>path = ''a.ts/b'', type' = ''blob''\<rparr>]) =
   Inr \<lparr>nodes = [\<lparr>id' = ''root'', group = 0, label = ''root''\<rparr>,
                 \<lparr>id' = ''node_1'', group = 2, label = ''a.ts''\<rparr>],
        links = [\<lparr>source = ''root'', target = ''node_1'', value' = 1\<rparr>]\<rparr> \<and>
   generateGraphFromTree
     [\<lparr>path = ''a.ts'', type' = ''blob''\<rparr>, \<lparr>path = ''a.ts/b'', type' = ''blob''\<rparr>] =
   Inr \<lparr>nodes = [\<lparr>id' = ''root'', group = 0, label = ''root''\<rparr>,
                 \<lparr>id' = ''node_1'', group = 2, label = ''a.ts''\<rparr>,
                 \<lparr>id' = ''node_2'', group = 1, label = ''b''\<rparr>],
        links = [\<lparr>source = ''root'', target = ''node_1'', value' = 1\<rparr>,
                 \<lparr>source = ''node_1'', target = ''node_2'', value' = 1\<rparr>]\<rparr> \<and>
   prefix [\<lparr>id' = ''root'', group = 0, label = ''root''\<rparr>,
           \<lparr>id' = ''node_1'', group = 2, label = ''a.ts''\<rparr>]
          [\<lparr>id' = ''root'', group = 0, label = ''root''\<rparr>,
           \<lparr>id' = ''node_1'', group = 2, label = ''a.ts''\<rparr>,
           \<lparr>id' = ''node_2'', group = 1, label = ''b''\<rparr>]"
  (is "?run1 = Inr ?G1 \<and> ?run2 = Inr ?G2 \<and> ?p")
proof -
  have h1: "?run1 = Inr ?G1" by code_simp
  have h2: "?run2 = Inr ?G2" by code_simp
  from group_fixed_at_creation[of 1 _ ?G1 ?G2] h1 h2 have "prefix (nodes ?G1) (nodes ?G2)"
    by blast
  with h1 h2 show ?thesis by simp
qed

section \<open>The claim about the input parser\<close>

lemma bare_split:
  "(let parts = js_split CHR ''/'' s
    in if length parts = 2 \<and> parts ! 0 \<noteq> [] \<and> parts ! 1 \<noteq> []
       then Some \<lparr>owner = parts ! 0, repo = parts ! 1\<rparr> else None) = Some r
   \<longleftrightarrow> bareToken s r"
proof
  assume l: "(let parts = js_split CHR ''/'' s
    in if length parts = 2 \<and> parts ! 0 \<noteq> [] \<and> parts ! 1 \<noteq> []
       then Some \<lparr>owner = parts ! 0, repo = parts ! 1\<rparr> else None) = Some r"
  then have len: "length (js_split CHR ''/'' s) = 2"
    by (simp add: Let_def split: if_splits)
  then obtain a b where ab: "js_split CHR ''/'' s = [a, b]"
    by (cases "js_split CHR ''/'' s" rule: list.exhaust; simp)
       (metis One_nat_def Suc_length_conv length_0_conv)
  with l have "a \<noteq> []" "b \<noteq> []" "r = \<lparr>owner = a, repo = b\<rparr>"
    by (auto simp: Let_def split: if_splits)
  with ab show "bareToken s r"
    by (simp add: bareToken_def js_split_pair_iff)
next
  assume "bareToken s r"
  then have "js_split CHR ''/'' s = [owner r, repo r]" and "owner r \<noteq> []" and "repo r \<noteq> []"
    by (simp_all add: bareToken_def js_split_pair_iff)
  then show "(let parts = js_split CHR ''/'' s
    in if length parts = 2 \<and> parts ! 0 \<noteq> [] \<and> parts ! 1 \<noteq> []
       then Some \<lparr>owner = parts ! 0, repo = parts ! 1\<rparr> else None) = Some r"
    by (simp add: Let_def)
qed

lemma fromURL_githubRepo:
  "(case u of
      None \<Rightarrow> None
    | Some url \<Rightarrow>
        if hostname url = ''github.com'' then
          (let parts = filterBoolean (js_split CHR ''/'' (pathname url))
           in if length parts \<ge> 2
              then Some \<lparr>owner = parts ! 0, repo = parts ! 1\<rparr> else None)
        else None) = githubRepo u"
proof (cases u)
  case None
  then show ?thesis by (simp add: githubRepo_def)
next
  case (Some url)
  show ?thesis
  proof (cases "filterBoolean (js_split CHR ''/'' (pathname url))")
    case Nil
    with Some show ?thesis by (simp add: githubRepo_def)
  next
    case (Cons a as)
    with Some show ?thesis by (cases as) (simp_all add: githubRepo_def)
  qed
qed

lemma parseRepoInput_eq:
  "parseRepoInput newURL input =
     (case githubRepo (newURL (replaceTrailingSlash (trim input))) of
        Some r \<Rightarrow> Some r
      | None \<Rightarrow>
          (let parts = js_split CHR ''/'' (replaceTrailingSlash (trim input))
           in if length parts = 2 \<and> parts ! 0 \<noteq> [] \<and> parts ! 1 \<noteq> []
              then Some \<lparr>owner = parts ! 0, repo = parts ! 1\<rparr> else None))"
  unfolding parseRepoInput_def Let_def fromURL_githubRepo[unfolded Let_def] ..

lemma not_bareToken:
  assumes "length (js_split CHR ''/'' s) \<noteq> 2"
  shows "\<not> bareToken s r"
proof
  assume "bareToken s r"
  then have "js_split CHR ''/'' s = [owner r, repo r]"
    by (simp add: bareToken_def js_split_pair_iff)
  with assms show False by simp
qed

text \<open>
  Claim C10, as stated, is false on the input as it is typed. The constructor of the
  platform rejects a string with no scheme, as all the cleaned inputs here are, so it is
  \<open>\<lambda>s. None\<close> on them. The input \<open>o/ \<close> is a bare token in the claim's words (one
  \<open>'/'\<close>, both parts non-empty) and yet gives the failure result, because trimming comes
  first and leaves \<open>o/\<close>. The input \<open> octo/cat/ \<close> is no bare token, with or without
  a trailing \<open>'/'\<close> removed, and yet gives a pair. The form \<open>github.com/owner/repo\<close>,
  which the specification calls a URL, gives the failure result.
\<close>

theorem parseRepoInput_raw_input_counterexample:
  "bareToken ''o/ '' \<lparr>owner = ''o'', repo = '' ''\<rparr> \<and>
   parseRepoInput (\<lambda>s. None) ''o/ '' = None \<and>
   (\<forall>r. \<not> bareToken '' octo/cat/ '' r) \<and>
   (\<forall>r. \<not> bareToken (replaceTrailingSlash '' octo/cat/ '') r) \<and>
   parseRepoInput (\<lambda>s. None) '' octo/cat/ '' = Some \<lparr>owner = ''octo'', repo = ''cat''\<rparr> \<and>
   parseRepoInput (\<lambda>s. None) ''github.com/owner/repo'' = None"
proof -
  have 1: "bareToken ''o/ '' \<lparr>owner = ''o'', repo = '' ''\<rparr>" by code_simp
  have 2: "parseRepoInput (\<lambda>s. None) ''o/ '' = None" by code_simp
  have "length (js_split CHR ''/'' '' octo/cat/ '') \<noteq> 2" by code_simp
  then have 3: "\<forall>r. \<not> bareToken '' octo/cat/ '' r" by (simp add: not_bareToken)
  have "length (js_split CHR ''/'' (replaceTrailingSlash '' octo/cat/ '')) \<noteq> 2" by code_simp
  then have 4: "\<forall>r. \<not> bareToken (replaceTrailingSlash '' octo/cat/ '') r"
    by (simp add: not_bareToken)
  have 5: "parseRepoInput (\<lambda>s. None) '' octo/cat/ '' = Some \<lparr>owner = ''octo'', repo = ''cat''\<rparr>"
    by code_simp
  have 6: "parseRepoInput (\<lambda>s. None) ''github.com/owner/repo'' = None" by code_simp
  from 1 2 3 4 5 6 show ?thesis by (intro conjI)
qed

text \<open>
  Claim C10, amended. The parser first trims white space from both ends of the input and
  then removes one trailing \<open>'/'\<close>; the cases are decided on this cleaned input. When the
  platform's URL constructor accepts it and reads a URL on host \<open>github.com\<close> whose path
  has at least two non-empty segments, the result is the first two segments. Otherwise,
  when it is a bare token (a non-empty owner, exactly one \<open>'/'\<close>, a non-empty repository
  name), the result is that owner and repository. Every other input gives the failure
  result. In particular a URL needs its scheme: where the constructor accepts only
  strings with a \<open>':'\<close>, a cleaned input without one that is no bare token, such as
  \<open>github.com/owner/repo\<close>, gives the failure result. One trailing \<open>'/'\<close> is ignored:
  an input that ends neither in white space nor in \<open>'/'\<close> gives the same result with a
  \<open>'/'\<close> appended.
\<close>

theorem parseRepoInput_cases:
  "(githubRepo (newURL (replaceTrailingSlash (trim input))) = Some r \<longrightarrow>
      parseRepoInput newURL input = Some r) \<and>
   (githubRepo (newURL (replaceTrailingSlash (trim input))) = None \<and>
    bareToken (replaceTrailingSlash (trim input)) r \<longrightarrow>
      parseRepoInput newURL input = Some r) \<and>
   (githubRepo (newURL (replaceTrailingSlash (trim input))) = None \<and>
    (\<forall>r'. \<not> bareToken (replaceTrailingSlash (trim input)) r') \<longrightarrow>
      parseRepoInput newURL input = None) \<and>
   ((\<forall>s. newURL s \<noteq> None \<longrightarrow> CHR '':'' \<in> set s) \<and>
    CHR '':'' \<notin> set (replaceTrailingSlash (trim input)) \<and>
    (\<forall>r'. \<not> bareToken (replaceTrailingSlash (trim input)) r') \<longrightarrow>
      parseRepoInput newURL input = None) \<and>
   (input = [] \<or> (\<not> isWhiteSpace (last input) \<and> last input \<noteq> CHR ''/'') \<longrightarrow>
      parseRepoInput newURL (input @ ''/'') = parseRepoInput newURL input)"
proof -
  let ?clean = "replaceTrailingSlash (trim input)"
  have 1: "githubRepo (newURL ?clean) = Some r \<longrightarrow> parseRepoInput newURL input = Some r"
    by (simp add: parseRepoInput_eq)
  have 2: "githubRepo (newURL ?clean) = None \<and> bareToken ?clean r \<longrightarrow>
      parseRepoInput newURL input = Some r"
    using bare_split[of ?clean r] by (simp add: parseRepoInput_eq)
  have none: "parseRepoInput newURL input = None"
    if a: "githubRepo (newURL ?clean) = None" "\<forall>r'. \<not> bareToken ?clean r'"
  proof (cases "parseRepoInput newURL input")
    case None
    then show ?thesis .
  next
    case (Some x)
    with a(1) have "bareToken ?clean x"
      using bare_split[of ?clean x] by (simp add: parseRepoInput_eq)
    with a(2) show ?thesis by blast
  qed
  then have 3: "githubRepo (newURL ?clean) = None \<and> (\<forall>r'. \<not> bareToken ?clean r') \<longrightarrow>
      parseRepoInput newURL input = None"
    by blast
  have 4: "(\<forall>s. newURL s \<noteq> None \<longrightarrow> CHR '':'' \<in> set s) \<and> CHR '':'' \<notin> set ?clean \<and>
    (\<forall>r'. \<not> bareToken ?clean r') \<longrightarrow> parseRepoInput newURL input = None"
  proof
    assume a: "(\<forall>s. newURL s \<noteq> None \<longrightarrow> CHR '':'' \<in> set s) \<and> CHR '':'' \<notin> set ?clean \<and>
      (\<forall>r'. \<not> bareToken ?clean r')"
    then have "newURL ?clean = None" by blast
    then have "githubRepo (newURL ?clean) = None" by (simp add: githubRepo_def)
    with a show "parseRepoInput newURL input = None" by (intro none) simp_all
  qed
  have 5: "input = [] \<or> (\<not> isWhiteSpace (last input) \<and> last input \<noteq> CHR ''/'') \<longrightarrow>
      parseRepoInput newURL (input @ ''/'') = parseRepoInput newURL input"
  proof
    assume "input = [] \<or> (\<not> isWhiteSpace (last input) \<and> last input \<noteq> CHR ''/'')"
    then have "replaceTrailingSlash (trim (input @ ''/'')) = replaceTrailingSlash (trim input)"
      by (rule clean_append_slash)
    then show "parseRepoInput newURL (input @ ''/'') = parseRepoInput newURL input"
      by (simp only: parseRepoInput_eq)
  qed
  from 1 2 3 4 5 show ?thesis by (intro conjI)
qed

theorem parseRepoInput_cases_witness:
  "githubRepo ((\<lambda>s. if s = ''https://github.com/owner/repo''
                    then Some \<lparr>hostname = ''github.com'', pathname = ''/owner/repo''\<rparr> else None)
      (replaceTrailingSlash (trim ''https://github.com/owner/repo/''))) =
     Some \<lparr>owner = ''owner'', repo = ''repo''\<rparr> \<and>
   parseRepoInput (\<lambda>s. if s = ''https://github.com/owner/repo''
                    then Some \<lparr>hostname = ''github.com'', pathname = ''/owner/repo''\<rparr> else None)
      ''https://github.com/owner/repo/'' = Some \<lparr>owner = ''owner'', repo = ''repo''\<rparr> \<and>
   githubRepo ((\<lambda>s. None) (replaceTrailingSlash (trim '' octo/cat ''))) = None \<and>
   bareToken (replaceTrailingSlash (trim '' octo/cat '')) \<lparr>owner = ''octo'', repo = ''cat''\<rparr> \<and>
   parseRepoInput (\<lambda>s. None) '' octo/cat '' = Some \<lparr>owner = ''octo'', repo = ''cat''\<rparr> \<and>
   (\<forall>r'. \<not> bareToken (replaceTrailingSlash (trim ''octo'')) r') \<and>
   parseRepoInput (\<lambda>s. None) ''octo'' = None \<and>
   CHR '':'' \<notin> set (replaceTrailingSlash (trim ''github.com/owner/repo'')) \<and>
   (\<forall>r'. \<not> bareToken (replaceTrailingSlash (trim ''github.com/owner/repo'')) r') \<and>
   parseRepoInput (\<lambda>s. if s = ''https://github.com/owner/repo''
                    then Some \<lparr>hostname = ''github.com'', pathname = ''/owner/repo''\<rparr> else None)
      ''github.com/owner/repo'' = None \<and>
   \<not> isWhiteSpace (last ''octo/cat'') \<and> last ''octo/cat'' \<noteq> CHR ''/'' \<and>
   parseRepoInput (\<lambda>s. None) (''octo/cat'' @ ''/'') = parseRepoInput (\<lambda>s. None) ''octo/cat''"
  (is "?g1 \<and> ?p1 \<and> ?g2 \<and> ?b2 \<and> ?p2 \<and> ?b3 \<and> ?p3 \<and> ?c5 \<and> ?b5 \<and> ?p5 \<and> ?w4 \<and> ?l4 \<and> ?p4")
proof -
  let ?U = "\<lambda>s. if s = ''https://github.com/owner/repo''
      then Some \<lparr>hostname = ''github.com'', pathname = ''/owner/repo''\<rparr> else None"
  have g1: ?g1 by code_simp
  have g2: ?g2 by (simp add: githubRepo_def)
  have b2: ?b2 by code_simp
  have "length (js_split CHR ''/'' (replaceTrailingSlash (trim ''octo''))) \<noteq> 2" by code_simp
  then have b3: ?b3 by (simp add: not_bareToken)
  have g3: "githubRepo ((\<lambda>s. None) (replaceTrailingSlash (trim ''octo''))) = None"
    by (simp add: githubRepo_def)
  have c5: ?c5 by code_simp
  have "length (js_split CHR ''/'' (replaceTrailingSlash (trim ''github.com/owner/repo''))) \<noteq> 2"
    by code_simp
  then have b5: ?b5 by (simp add: not_bareToken)
  have u5: "\<forall>s. ?U s \<noteq> None \<longrightarrow> CHR '':'' \<in> set s" by simp
  have w4: ?w4 by code_simp
  have l4: ?l4 by simp
  have p1: ?p1
    using parseRepoInput_cases[of ?U "''https://github.com/owner/repo/''"
        "\<lparr>owner = ''owner'', repo = ''repo''\<rparr>"] g1
    by blast
  have p2: ?p2
    using parseRepoInput_cases[of "\<lambda>s. None" "'' octo/cat ''" "\<lparr>owner = ''octo'', repo = ''cat''\<rparr>"]
      g2 b2 by blast
  have p3: ?p3
    using parseRepoInput_cases[of "\<lambda>s. None" "''octo''"] g3 b3 by blast
  have p5: ?p5
    using parseRepoInput_cases[of ?U "''github.com/owner/repo''"] u5 c5 b5 by blast
  have p4: ?p4
    using parseRepoInput_cases[of "\<lambda>s. None" "''octo/cat''"] w4 l4 by blast
  from g1 p1 g2 b2 p2 b3 p3 c5 b5 p5 w4 l4 p4 show ?thesis by (intro conjI)
qed

end
